theory Spec2Isabelle
  imports Complex_Main "HOL-Library.Monad_Syntax"
begin

section \<open>Percolation threshold estimation: the model\<close>

text \<open>
  The development follows the four C++ sources: \<^verbatim>\<open>Percolation.hpp\<close> (weighted quick-union
  with path compression), \<^verbatim>\<open>PercolationQuickFind.hpp\<close> (quick-find),
  \<^verbatim>\<open>PercolationStat.hpp\<close> (the Monte-Carlo estimator) and the callers in \<^verbatim>\<open>main.cpp\<close>.

  Conventions of the embedding.
  \<^item> A member function becomes a function that takes the object and returns the object it
    leaves behind together with its outcome.
  \<^item> \<^verbatim>\<open>std::invalid_argument\<close> is the only exception the sources throw; it is a value of
    \<open>exn\<close> carrying the message. An outcome is \<open>exn + 'a\<close> (\<open>Inl\<close> the exception).
  \<^item> The value \<open>None\<close> stands for "no defined outcome": a vector access outside its
    bounds or a signed overflow (both undefined behaviour in C++), or a recursion or loop that
    does not return. Every \<^verbatim>\<open>operator[]\<close> of the sources is a checked read \<open>rd\<close> or a checked
    write \<open>wr\<close>.
  \<^item> \<^verbatim>\<open>int\<close> coordinates, sizes and counters are \<^typ>\<open>int\<close>; \<^verbatim>\<open>int\<close> is taken to be 32 bits
    wide, and the only place where a 32-bit overflow can occur, the computation of
    \<^verbatim>\<open>n * n + 2\<close> in the constructors, is guarded explicitly. Indices into vectors are
    \<^typ>\<open>nat\<close> (the conversion is in \<open>getIndex\<close>); the entries of the \<^verbatim>\<open>parent\<close>, \<^verbatim>\<open>size\<close> and
    \<^verbatim>\<open>id\<close> vectors, which only ever hold indices and element counts, are \<^typ>\<open>nat\<close> as well.
  \<^item> Running out of memory is not modelled.
\<close>

subsection \<open>Exceptions, outcomes, vectors\<close>

datatype exn = invalid_argument string

type_synonym ('a, 's) result = "((exn + 'a) \<times> 's) option"

text \<open>Sequencing of two calls on the same object: an exception of the first call leaves the
  function at once, with the object as it is at that moment.\<close>

definition seq :: "('a, 's) result \<Rightarrow> ('a \<Rightarrow> 's \<Rightarrow> ('b, 's) result) \<Rightarrow> ('b, 's) result" where
  "seq m f = (case m of
                None \<Rightarrow> None
              | Some (Inl e, s) \<Rightarrow> Some (Inl e, s)
              | Some (Inr a, s) \<Rightarrow> f a s)"

text \<open>A private helper that cannot throw, run for its effect on the object.\<close>

definition effect :: "'s option \<Rightarrow> (unit, 's) result" where
  "effect m = (case m of None \<Rightarrow> None | Some s \<Rightarrow> Some (Inr (), s))"

definition rd :: "'a list \<Rightarrow> nat \<Rightarrow> 'a option" where
  "rd v i = (if i < length v then Some (v ! i) else None)"

definition wr :: "'a list \<Rightarrow> nat \<Rightarrow> 'a \<Rightarrow> 'a list option" where
  "wr v i a = (if i < length v then Some (v[i := a]) else None)"

definition INT_MAX :: int where
  "INT_MAX = 2147483647"

subsection \<open>\<^verbatim>\<open>Percolation.hpp\<close>: weighted quick-union with path compression\<close>

record Percolation =
  P_n :: int
  P_grid :: "bool list"
  P_parent :: "nat list"
  P_size :: "nat list"
  P_openSitesCount :: int
  P_virtualTop :: nat
  P_virtualBottom :: nat

definition P_getIndex :: "Percolation \<Rightarrow> int \<Rightarrow> int \<Rightarrow> nat" where
  "P_getIndex s row col = nat (row * P_n s + col)"

definition P_validate :: "Percolation \<Rightarrow> int \<Rightarrow> int \<Rightarrow> (unit, Percolation) result" where
  "P_validate s row col =
     (if row < 0 \<or> row \<ge> P_n s \<or> col < 0 \<or> col \<ge> P_n s
      then Some (Inl (invalid_argument ''Index out of bounds''), s)
      else Some (Inr (), s))"

text \<open>\<^verbatim>\<open>find\<close> reads and writes the \<^verbatim>\<open>parent\<close> vector only, so the model passes that vector.
  The recursion need not end (a cycle in \<^verbatim>\<open>parent\<close> makes it run forever), hence
  \<^theory_text>\<open>partial_function\<close>.\<close>

partial_function (option) P_find :: "nat list \<Rightarrow> nat \<Rightarrow> (nat \<times> nat list) option" where
  "P_find parent x = do {
     px \<leftarrow> rd parent x;
     parent2 \<leftarrow> (if px \<noteq> x
                 then do { (r, parent1) \<leftarrow> P_find parent px; wr parent1 x r }
                 else Some parent);
     r \<leftarrow> rd parent2 x;
     Some (r, parent2)
   }"

declare P_find.simps [code]

definition P_unionSites :: "Percolation \<Rightarrow> nat \<Rightarrow> nat \<Rightarrow> Percolation option" where
  "P_unionSites s x y = do {
     (rootX, parent1) \<leftarrow> P_find (P_parent s) x;
     (rootY, parent2) \<leftarrow> P_find parent1 y;
     if rootX = rootY then Some (s\<lparr>P_parent := parent2\<rparr>)
     else do {
       sizeX \<leftarrow> rd (P_size s) rootX;
       sizeY \<leftarrow> rd (P_size s) rootY;
       if sizeX < sizeY
       then do {
         parent3 \<leftarrow> wr parent2 rootX rootY;
         size1 \<leftarrow> wr (P_size s) rootY (sizeY + sizeX);
         Some (s\<lparr>P_parent := parent3, P_size := size1\<rparr>) }
       else do {
         parent3 \<leftarrow> wr parent2 rootY rootX;
         size1 \<leftarrow> wr (P_size s) rootX (sizeX + sizeY);
         Some (s\<lparr>P_parent := parent3, P_size := size1\<rparr>) }
     }
   }"

text \<open>\<^verbatim>\<open>find(x) == find(y)\<close>: C++ leaves the order of the two calls open; the model runs the
  left one first. Both calls only compress paths, and the roots they return do not depend on
  the order (lemma \<open>P_find_root_of\<close> below).\<close>

definition P_connected :: "Percolation \<Rightarrow> nat \<Rightarrow> nat \<Rightarrow> (bool \<times> Percolation) option" where
  "P_connected s x y = do {
     (rootX, parent1) \<leftarrow> P_find (P_parent s) x;
     (rootY, parent2) \<leftarrow> P_find parent1 y;
     Some (rootX = rootY, s\<lparr>P_parent := parent2\<rparr>)
   }"

text \<open>The constructor. \<^verbatim>\<open>resize\<close> fills the vectors with \<open>false\<close>, \<open>0\<close> and \<open>1\<close>; the
  \<^verbatim>\<open>for\<close> loop then sets \<^verbatim>\<open>parent[i] = i\<close> for every index in turn.\<close>

definition P_new :: "int \<Rightarrow> (exn + Percolation) option" where
  "P_new n =
     (if n \<le> 0 then Some (Inl (invalid_argument ''Grid size must be positive''))
      else if n * n + 2 > INT_MAX then None
      else
        let totalSites = nat (n * n + 2) in
        Some (Inr \<lparr>P_n = n,
                   P_grid = replicate (nat (n * n)) False,
                   P_parent = fold (\<lambda>i parent. parent[i := i]) [0..<totalSites]
                                (replicate totalSites 0),
                   P_size = replicate totalSites 1,
                   P_openSitesCount = 0,
                   P_virtualTop = nat (n * n),
                   P_virtualBottom = nat (n * n + 1)\<rparr>))"

definition P_isOpen :: "Percolation \<Rightarrow> int \<Rightarrow> int \<Rightarrow> (bool, Percolation) result" where
  "P_isOpen s row col =
     seq (P_validate s row col) (\<lambda>_ s.
     case rd (P_grid s) (P_getIndex s row col) of
       None \<Rightarrow> None
     | Some b \<Rightarrow> Some (Inr b, s))"

text \<open>\<^verbatim>\<open>open\<close>: each \<^verbatim>\<open>if\<close> statement of the source is one \<open>seq\<close> block; \<^verbatim>\<open>&&\<close> does not
  call \<^verbatim>\<open>isOpen\<close> when its left operand is false.\<close>

definition P_open :: "Percolation \<Rightarrow> int \<Rightarrow> int \<Rightarrow> (unit, Percolation) result" where
  "P_open s row col =
     seq (P_validate s row col) (\<lambda>_ s.
     seq (P_isOpen s row col) (\<lambda>already s.
     if already then Some (Inr (), s)
     else
       let index = P_getIndex s row col in
       seq (effect (do { g \<leftarrow> wr (P_grid s) index True;
                         Some (s\<lparr>P_grid := g,
                                 P_openSitesCount := P_openSitesCount s + 1\<rparr>) })) (\<lambda>_ s.
       seq (if row = 0 then effect (P_unionSites s index (P_virtualTop s))
            else Some (Inr (), s)) (\<lambda>_ s.
       seq (if row = P_n s - 1 then effect (P_unionSites s index (P_virtualBottom s))
            else Some (Inr (), s)) (\<lambda>_ s.
       seq (seq (if row > 0 then P_isOpen s (row - 1) col else Some (Inr False, s)) (\<lambda>up s.
              if up then effect (P_unionSites s index (P_getIndex s (row - 1) col))
              else Some (Inr (), s))) (\<lambda>_ s.
       seq (seq (if row < P_n s - 1 then P_isOpen s (row + 1) col else Some (Inr False, s)) (\<lambda>down s.
              if down then effect (P_unionSites s index (P_getIndex s (row + 1) col))
              else Some (Inr (), s))) (\<lambda>_ s.
       seq (seq (if col > 0 then P_isOpen s row (col - 1) else Some (Inr False, s)) (\<lambda>left s.
              if left then effect (P_unionSites s index (P_getIndex s row (col - 1)))
              else Some (Inr (), s))) (\<lambda>_ s.
       seq (if col < P_n s - 1 then P_isOpen s row (col + 1) else Some (Inr False, s)) (\<lambda>right s.
         if right then effect (P_unionSites s index (P_getIndex s row (col + 1)))
         else Some (Inr (), s))))))))))"

definition P_isFull :: "Percolation \<Rightarrow> int \<Rightarrow> int \<Rightarrow> (bool, Percolation) result" where
  "P_isFull s row col =
     seq (P_validate s row col) (\<lambda>_ s.
     seq (P_isOpen s row col) (\<lambda>isopen s.
     if \<not> isopen then Some (Inr False, s)
     else case P_connected s (P_getIndex s row col) (P_virtualTop s) of
            None \<Rightarrow> None
          | Some (b, s') \<Rightarrow> Some (Inr b, s')))"

definition P_numberOfOpenSites :: "Percolation \<Rightarrow> (int, Percolation) result" where
  "P_numberOfOpenSites s = Some (Inr (P_openSitesCount s), s)"

definition P_percolates :: "Percolation \<Rightarrow> (bool, Percolation) result" where
  "P_percolates s =
     (case P_connected s (P_virtualTop s) (P_virtualBottom s) of
        None \<Rightarrow> None
      | Some (b, s') \<Rightarrow> Some (Inr b, s'))"

subsection \<open>\<^verbatim>\<open>PercolationQuickFind.hpp\<close>: quick-find\<close>

record PercolationQuickFind =
  QF_n :: int
  QF_grid :: "bool list"
  QF_id :: "nat list"
  QF_openSitesCount :: int
  QF_virtualTop :: nat
  QF_virtualBottom :: nat

definition QF_getIndex :: "PercolationQuickFind \<Rightarrow> int \<Rightarrow> int \<Rightarrow> nat" where
  "QF_getIndex s row col = nat (row * QF_n s + col)"

definition QF_validate ::
  "PercolationQuickFind \<Rightarrow> int \<Rightarrow> int \<Rightarrow> (unit, PercolationQuickFind) result" where
  "QF_validate s row col =
     (if row < 0 \<or> row \<ge> QF_n s \<or> col < 0 \<or> col \<ge> QF_n s
      then Some (Inl (invalid_argument ''Index out of bounds''), s)
      else Some (Inr (), s))"

definition QF_find :: "PercolationQuickFind \<Rightarrow> nat \<Rightarrow> nat option" where
  "QF_find s x = rd (QF_id s) x"

text \<open>The relabelling loop of \<^verbatim>\<open>unionSites\<close>, one iteration per index, in place.\<close>

definition QF_relabel :: "nat \<Rightarrow> nat \<Rightarrow> nat list \<Rightarrow> nat list option" where
  "QF_relabel idX idY ids =
     fold (\<lambda>i m. do { v \<leftarrow> m;
                       a \<leftarrow> rd v i;
                       if a = idX then wr v i idY else Some v })
          [0..<length ids] (Some ids)"

definition QF_unionSites ::
  "PercolationQuickFind \<Rightarrow> nat \<Rightarrow> nat \<Rightarrow> PercolationQuickFind option" where
  "QF_unionSites s x y = do {
     idX \<leftarrow> QF_find s x;
     idY \<leftarrow> QF_find s y;
     if idX = idY then Some s
     else do { ids \<leftarrow> QF_relabel idX idY (QF_id s); Some (s\<lparr>QF_id := ids\<rparr>) }
   }"

definition QF_connected :: "PercolationQuickFind \<Rightarrow> nat \<Rightarrow> nat \<Rightarrow> bool option" where
  "QF_connected s x y = do {
     idX \<leftarrow> QF_find s x;
     idY \<leftarrow> QF_find s y;
     Some (idX = idY)
   }"

definition QF_new :: "int \<Rightarrow> (exn + PercolationQuickFind) option" where
  "QF_new n =
     (if n \<le> 0 then Some (Inl (invalid_argument ''Grid size must be positive''))
      else if n * n + 2 > INT_MAX then None
      else
        let totalSites = nat (n * n + 2) in
        Some (Inr \<lparr>QF_n = n,
                   QF_grid = replicate (nat (n * n)) False,
                   QF_id = fold (\<lambda>i ids. ids[i := i]) [0..<totalSites]
                             (replicate totalSites 0),
                   QF_openSitesCount = 0,
                   QF_virtualTop = nat (n * n),
                   QF_virtualBottom = nat (n * n + 1)\<rparr>))"

definition QF_isOpen ::
  "PercolationQuickFind \<Rightarrow> int \<Rightarrow> int \<Rightarrow> (bool, PercolationQuickFind) result" where
  "QF_isOpen s row col =
     seq (QF_validate s row col) (\<lambda>_ s.
     case rd (QF_grid s) (QF_getIndex s row col) of
       None \<Rightarrow> None
     | Some b \<Rightarrow> Some (Inr b, s))"

definition QF_open ::
  "PercolationQuickFind \<Rightarrow> int \<Rightarrow> int \<Rightarrow> (unit, PercolationQuickFind) result" where
  "QF_open s row col =
     seq (QF_validate s row col) (\<lambda>_ s.
     seq (QF_isOpen s row col) (\<lambda>already s.
     if already then Some (Inr (), s)
     else
       let index = QF_getIndex s row col in
       seq (effect (do { g \<leftarrow> wr (QF_grid s) index True;
                         Some (s\<lparr>QF_grid := g,
                                 QF_openSitesCount := QF_openSitesCount s + 1\<rparr>) })) (\<lambda>_ s.
       seq (if row = 0 then effect (QF_unionSites s index (QF_virtualTop s))
            else Some (Inr (), s)) (\<lambda>_ s.
       seq (if row = QF_n s - 1 then effect (QF_unionSites s index (QF_virtualBottom s))
            else Some (Inr (), s)) (\<lambda>_ s.
       seq (seq (if row > 0 then QF_isOpen s (row - 1) col else Some (Inr False, s)) (\<lambda>up s.
              if up then effect (QF_unionSites s index (QF_getIndex s (row - 1) col))
              else Some (Inr (), s))) (\<lambda>_ s.
       seq (seq (if row < QF_n s - 1 then QF_isOpen s (row + 1) col else Some (Inr False, s)) (\<lambda>down s.
              if down then effect (QF_unionSites s index (QF_getIndex s (row + 1) col))
              else Some (Inr (), s))) (\<lambda>_ s.
       seq (seq (if col > 0 then QF_isOpen s row (col - 1) else Some (Inr False, s)) (\<lambda>left s.
              if left then effect (QF_unionSites s index (QF_getIndex s row (col - 1)))
              else Some (Inr (), s))) (\<lambda>_ s.
       seq (if col < QF_n s - 1 then QF_isOpen s row (col + 1) else Some (Inr False, s)) (\<lambda>right s.
         if right then effect (QF_unionSites s index (QF_getIndex s row (col + 1)))
         else Some (Inr (), s))))))))))"

definition QF_isFull ::
  "PercolationQuickFind \<Rightarrow> int \<Rightarrow> int \<Rightarrow> (bool, PercolationQuickFind) result" where
  "QF_isFull s row col =
     seq (QF_validate s row col) (\<lambda>_ s.
     seq (QF_isOpen s row col) (\<lambda>isopen s.
     if \<not> isopen then Some (Inr False, s)
     else case QF_connected s (QF_getIndex s row col) (QF_virtualTop s) of
            None \<Rightarrow> None
          | Some b \<Rightarrow> Some (Inr b, s)))"

definition QF_numberOfOpenSites :: "PercolationQuickFind \<Rightarrow> (int, PercolationQuickFind) result" where
  "QF_numberOfOpenSites s = Some (Inr (QF_openSitesCount s), s)"

definition QF_percolates :: "PercolationQuickFind \<Rightarrow> (bool, PercolationQuickFind) result" where
  "QF_percolates s =
     (case QF_connected s (QF_virtualTop s) (QF_virtualBottom s) of
        None \<Rightarrow> None
      | Some b \<Rightarrow> Some (Inr b, s))"

subsection \<open>Clients: sequences of calls on one grid\<close>

text \<open>A client holds one grid and calls its public member functions one after the other, as
  \<^verbatim>\<open>Percolation::test\<close> does; it catches an exception and carries on with the same object.
  A call is a \<open>call\<close>; what it gives back is an \<open>exn + val\<close>.\<close>

datatype call = Open int int | IsOpen int int | IsFull int int | NumberOfOpenSites | Percolates

datatype val = VUnit | VBool bool | VInt int

definition returning :: "('a \<Rightarrow> val) \<Rightarrow> ('a, 's) result \<Rightarrow> (val, 's) result" where
  "returning f m = (case m of
                      None \<Rightarrow> None
                    | Some (Inl e, s) \<Rightarrow> Some (Inl e, s)
                    | Some (Inr a, s) \<Rightarrow> Some (Inr (f a), s))"

fun P_call :: "Percolation \<Rightarrow> call \<Rightarrow> (val, Percolation) result" where
  "P_call s (Open row col) = returning (\<lambda>_. VUnit) (P_open s row col)"
| "P_call s (IsOpen row col) = returning VBool (P_isOpen s row col)"
| "P_call s (IsFull row col) = returning VBool (P_isFull s row col)"
| "P_call s NumberOfOpenSites = returning VInt (P_numberOfOpenSites s)"
| "P_call s Percolates = returning VBool (P_percolates s)"

fun P_run :: "Percolation \<Rightarrow> call list \<Rightarrow> ((exn + val) list \<times> Percolation) option" where
  "P_run s [] = Some ([], s)"
| "P_run s (c # cs) =
     (case P_call s c of
        None \<Rightarrow> None
      | Some (out, s') \<Rightarrow>
          (case P_run s' cs of None \<Rightarrow> None | Some (outs, s'') \<Rightarrow> Some (out # outs, s'')))"

fun QF_call :: "PercolationQuickFind \<Rightarrow> call \<Rightarrow> (val, PercolationQuickFind) result" where
  "QF_call s (Open row col) = returning (\<lambda>_. VUnit) (QF_open s row col)"
| "QF_call s (IsOpen row col) = returning VBool (QF_isOpen s row col)"
| "QF_call s (IsFull row col) = returning VBool (QF_isFull s row col)"
| "QF_call s NumberOfOpenSites = returning VInt (QF_numberOfOpenSites s)"
| "QF_call s Percolates = returning VBool (QF_percolates s)"

fun QF_run ::
  "PercolationQuickFind \<Rightarrow> call list \<Rightarrow> ((exn + val) list \<times> PercolationQuickFind) option" where
  "QF_run s [] = Some ([], s)"
| "QF_run s (c # cs) =
     (case QF_call s c of
        None \<Rightarrow> None
      | Some (out, s') \<Rightarrow>
          (case QF_run s' cs of None \<Rightarrow> None | Some (outs, s'') \<Rightarrow> Some (out # outs, s'')))"

text \<open>The calls that only ask.\<close>

fun is_query :: "call \<Rightarrow> bool" where
  "is_query (Open row col) = False"
| "is_query _ = True"

text \<open>A session: construct a grid of side \<open>n\<close>, make the calls, collect what they gave back.\<close>

definition P_session :: "int \<Rightarrow> call list \<Rightarrow> (exn + (exn + val) list) option" where
  "P_session n cs =
     (case P_new n of
        None \<Rightarrow> None
      | Some (Inl e) \<Rightarrow> Some (Inl e)
      | Some (Inr s) \<Rightarrow> (case P_run s cs of None \<Rightarrow> None | Some (outs, _) \<Rightarrow> Some (Inr outs)))"

definition QF_session :: "int \<Rightarrow> call list \<Rightarrow> (exn + (exn + val) list) option" where
  "QF_session n cs =
     (case QF_new n of
        None \<Rightarrow> None
      | Some (Inl e) \<Rightarrow> Some (Inl e)
      | Some (Inr s) \<Rightarrow> (case QF_run s cs of None \<Rightarrow> None | Some (outs, _) \<Rightarrow> Some (Inr outs)))"

subsection \<open>\<^verbatim>\<open>PercolationStat.hpp\<close>: the estimator\<close>

text \<open>
  \<^verbatim>\<open>double\<close> values. A value is a finite number, an infinity or a NaN; the operations treat the
  special values as IEEE 754 arithmetic does (no operation traps in the default floating-point
  environment: an invalid operation such as \<open>0 / 0\<close> gives NaN, a division of a non-zero number by
  zero gives an infinity). On finite values the operations are exact: rounding is not
  modelled, nor is the sign of zero (a zero divisor is \<open>+0\<close>, which is what the conversion of
  the \<^verbatim>\<open>int\<close> 0 gives).
\<close>

datatype double = Fin real | PosInf | NegInf | NaN

definition of_int_double :: "int \<Rightarrow> double" where
  "of_int_double k = Fin (of_int k)"

fun fneg :: "double \<Rightarrow> double" where
  "fneg (Fin a) = Fin (- a)"
| "fneg PosInf = NegInf"
| "fneg NegInf = PosInf"
| "fneg NaN = NaN"

fun fadd :: "double \<Rightarrow> double \<Rightarrow> double" where
  "fadd NaN b = NaN"
| "fadd a NaN = NaN"
| "fadd (Fin a) (Fin b) = Fin (a + b)"
| "fadd PosInf NegInf = NaN"
| "fadd NegInf PosInf = NaN"
| "fadd PosInf b = PosInf"
| "fadd NegInf b = NegInf"
| "fadd (Fin a) b = b"

definition fsub :: "double \<Rightarrow> double \<Rightarrow> double" where
  "fsub a b = fadd a (fneg b)"

fun fmul :: "double \<Rightarrow> double \<Rightarrow> double" where
  "fmul NaN b = NaN"
| "fmul a NaN = NaN"
| "fmul (Fin a) (Fin b) = Fin (a * b)"
| "fmul (Fin a) b = (if a = 0 then NaN else if 0 < a then b else fneg b)"
| "fmul a (Fin b) = (if b = 0 then NaN else if 0 < b then a else fneg a)"
| "fmul PosInf b = b"
| "fmul NegInf b = fneg b"

fun fdiv :: "double \<Rightarrow> double \<Rightarrow> double" where
  "fdiv NaN b = NaN"
| "fdiv a NaN = NaN"
| "fdiv (Fin a) (Fin b) =
     (if b = 0 then (if a = 0 then NaN else if 0 < a then PosInf else NegInf)
      else Fin (a / b))"
| "fdiv (Fin a) b = Fin 0"
| "fdiv a (Fin b) = (if 0 \<le> b then a else fneg a)"
| "fdiv a b = NaN"

fun fsqrt :: "double \<Rightarrow> double" where
  "fsqrt (Fin a) = (if a < 0 then NaN else Fin (sqrt a))"
| "fsqrt PosInf = PosInf"
| "fsqrt NegInf = NaN"
| "fsqrt NaN = NaN"

record PercolationStats =
  PS_thresholds :: "double list"
  PS_n :: int
  PS_trials :: int
  PS_sampleMean :: double
  PS_sampleStddev :: double

text \<open>\<^verbatim>\<open>calculateStats\<close> reads \<^verbatim>\<open>thresholds\<close> and \<^verbatim>\<open>trials\<close> and is the first to write the two
  remaining members; it returns the mean and the standard deviation it stores.\<close>

definition PS_calculateStats :: "double list \<Rightarrow> int \<Rightarrow> double \<times> double" where
  "PS_calculateStats thresholds trials =
     (let sum = fold (\<lambda>threshold sum. fadd sum threshold) thresholds (Fin 0);
          sampleMean = fdiv sum (of_int_double trials);
          sumSquaredDiffs = fold (\<lambda>threshold sumSquaredDiffs.
                               let diff = fsub threshold sampleMean
                               in fadd sumSquaredDiffs (fmul diff diff))
                             thresholds (Fin 0);
          sampleStddev = fsqrt (fdiv sumSquaredDiffs (of_int_double (trials - 1)))
      in (sampleMean, sampleStddev))"

text \<open>
  The random source. \<^verbatim>\<open>dis(gen)\<close> gives a value in \<open>[0, n - 1]\<close>; that is all the model takes
  from the library. The raw values of the generator are a parameter \<open>draws\<close> (the \<open>k\<close>-th
  call sees \<open>draws k\<close>), reduced into the range of the distribution.
\<close>

definition PS_dis :: "(nat \<Rightarrow> nat) \<Rightarrow> int \<Rightarrow> nat \<Rightarrow> int" where
  "PS_dis draws n k = int (draws k mod nat n)"

text \<open>The \<^verbatim>\<open>do ... while (perc.isOpen(row, col))\<close> loop: draw a row and a column until the site
  is blocked. \<open>k\<close> counts the values drawn so far.\<close>

partial_function (option) PS_pick ::
  "(nat \<Rightarrow> nat) \<Rightarrow> int \<Rightarrow> Percolation \<Rightarrow> nat \<Rightarrow> (int \<times> int, Percolation \<times> nat) result" where
  "PS_pick draws n perc k =
     (let row = PS_dis draws n k; col = PS_dis draws n (k + 1) in
      case P_isOpen perc row col of
        None \<Rightarrow> None
      | Some (Inl e, perc') \<Rightarrow> Some (Inl e, perc', k + 2)
      | Some (Inr isopen, perc') \<Rightarrow>
          if isopen then PS_pick draws n perc' (k + 2)
          else Some (Inr (row, col), perc', k + 2))"

declare PS_pick.simps [code]

text \<open>The \<^verbatim>\<open>while (!perc.percolates())\<close> loop of one trial.\<close>

partial_function (option) PS_trial ::
  "(nat \<Rightarrow> nat) \<Rightarrow> int \<Rightarrow> Percolation \<Rightarrow> nat \<Rightarrow> (unit, Percolation \<times> nat) result" where
  "PS_trial draws n perc k =
     (case P_percolates perc of
        None \<Rightarrow> None
      | Some (Inl e, perc') \<Rightarrow> Some (Inl e, perc', k)
      | Some (Inr percolates, perc') \<Rightarrow>
          if percolates then Some (Inr (), perc', k)
          else (case PS_pick draws n perc' k of
                  None \<Rightarrow> None
                | Some (Inl e, perc'', k') \<Rightarrow> Some (Inl e, perc'', k')
                | Some (Inr (row, col), perc'', k') \<Rightarrow>
                    (case P_open perc'' row col of
                       None \<Rightarrow> None
                     | Some (Inl e, perc3) \<Rightarrow> Some (Inl e, perc3, k')
                     | Some (Inr _, perc3) \<Rightarrow> PS_trial draws n perc3 k')))"

declare PS_trial.simps [code]

text \<open>The body of the \<^verbatim>\<open>for\<close> loop: one trial on a fresh grid, giving its threshold. The grid
  is a local of the loop body and is gone afterwards.\<close>

definition PS_threshold :: "(nat \<Rightarrow> nat) \<Rightarrow> int \<Rightarrow> nat \<Rightarrow> (double, nat) result" where
  "PS_threshold draws n k =
     (case P_new n of
        None \<Rightarrow> None
      | Some (Inl e) \<Rightarrow> Some (Inl e, k)
      | Some (Inr perc) \<Rightarrow>
          (case PS_trial draws n perc k of
             None \<Rightarrow> None
           | Some (Inl e, perc', k') \<Rightarrow> Some (Inl e, k')
           | Some (Inr _, perc', k') \<Rightarrow>
               (case P_numberOfOpenSites perc' of
                  None \<Rightarrow> None
                | Some (Inl e, perc'') \<Rightarrow> Some (Inl e, k')
                | Some (Inr count, perc'') \<Rightarrow>
                    Some (Inr (fdiv (of_int_double count) (of_int_double (n * n))), k'))))"

text \<open>The \<^verbatim>\<open>for (int t = 0; t < trials; t++)\<close> loop. Its state is \<open>t\<close>, the thresholds pushed so
  far and the number of values drawn; \<open>t\<close> is returned as well: it is the number of trials
  that were completed.\<close>

function PS_loop ::
  "(nat \<Rightarrow> nat) \<Rightarrow> int \<Rightarrow> int \<Rightarrow> int \<Rightarrow> double list \<Rightarrow> nat \<Rightarrow> (double list, int \<times> nat) result" where
  "PS_loop draws n trials t thresholds k =
     (if t < trials
      then (case PS_threshold draws n k of
              None \<Rightarrow> None
            | Some (Inl e, k') \<Rightarrow> Some (Inl e, t, k')
            | Some (Inr threshold, k') \<Rightarrow>
                PS_loop draws n trials (t + 1) (thresholds @ [threshold]) k')
      else Some (Inr thresholds, t, k))"
  by pat_completeness auto
termination
  by (relation "measure (\<lambda>(draws, n, trials, t, thresholds, k). nat (trials - t))") auto

text \<open>The constructor. Beside its outcome it gives the number of completed trials and the
  number of values drawn from the generator; the generator is created after the two checks.\<close>

definition PS_new :: "(nat \<Rightarrow> nat) \<Rightarrow> int \<Rightarrow> int \<Rightarrow> (PercolationStats, int \<times> nat) result" where
  "PS_new draws n trials =
     (if n \<le> 0 then Some (Inl (invalid_argument ''Grid size n must be positive''), 0, 0)
      else if trials \<le> 0
      then Some (Inl (invalid_argument ''Number of trials must be positive''), 0, 0)
      else (case PS_loop draws n trials 0 [] 0 of
              None \<Rightarrow> None
            | Some (Inl e, t, k) \<Rightarrow> Some (Inl e, t, k)
            | Some (Inr thresholds, t, k) \<Rightarrow>
                (let (sampleMean, sampleStddev) = PS_calculateStats thresholds trials
                 in Some (Inr \<lparr>PS_thresholds = thresholds, PS_n = n, PS_trials = trials,
                               PS_sampleMean = sampleMean, PS_sampleStddev = sampleStddev\<rparr>,
                          t, k))))"

definition PS_mean :: "PercolationStats \<Rightarrow> double" where
  "PS_mean s = PS_sampleMean s"

definition PS_stddev :: "PercolationStats \<Rightarrow> double" where
  "PS_stddev s = PS_sampleStddev s"

definition PS_confidenceLow :: "PercolationStats \<Rightarrow> double" where
  "PS_confidenceLow s =
     (let margin = fdiv (fmul (Fin 1.96) (PS_sampleStddev s))
                        (fsqrt (of_int_double (PS_trials s)))
      in fsub (PS_sampleMean s) margin)"

definition PS_confidenceHigh :: "PercolationStats \<Rightarrow> double" where
  "PS_confidenceHigh s =
     (let margin = fdiv (fmul (Fin 1.96) (PS_sampleStddev s))
                        (fsqrt (of_int_double (PS_trials s)))
      in fadd (PS_sampleMean s) margin)"

subsection \<open>Notions used in the statements and proofs\<close>

text \<open>\<open>root_of p x r\<close>: following the \<^verbatim>\<open>parent\<close> links from \<open>x\<close> ends at the root \<open>r\<close>,
  all within the bounds of the vector. A \<open>forest\<close> is a vector in which this happens for
  every index; two indices are in the same component when they have the same root.\<close>

inductive root_of :: "nat list \<Rightarrow> nat \<Rightarrow> nat \<Rightarrow> bool" where
  root: "x < length p \<Longrightarrow> p ! x = x \<Longrightarrow> root_of p x x"
| step: "x < length p \<Longrightarrow> p ! x \<noteq> x \<Longrightarrow> root_of p (p ! x) r \<Longrightarrow> root_of p x r"

definition forest :: "nat list \<Rightarrow> bool" where
  "forest p = (\<forall>x<length p. \<exists>r. root_of p x r)"

definition same_root :: "nat list \<Rightarrow> nat \<Rightarrow> nat \<Rightarrow> bool" where
  "same_root p x y = (\<exists>r. root_of p x r \<and> root_of p y r)"


text \<open>The invariant of the union-find vectors (spec, data model): \<^verbatim>\<open>parent\<close> is a forest and
  \<^verbatim>\<open>size\<close> holds, at every root, the number of elements of that root's component.\<close>

definition uf_inv :: "nat list \<Rightarrow> nat list \<Rightarrow> bool" where
  "uf_inv p sz = (forest p \<and> length sz = length p \<and>
     (\<forall>r<length p. p ! r = r \<longrightarrow> sz ! r = card {x. root_of p x r}))"

text \<open>The coordinates \<^verbatim>\<open>validate\<close> accepts.\<close>

definition in_grid :: "int \<Rightarrow> int \<Rightarrow> int \<Rightarrow> bool" where
  "in_grid n row col = (0 \<le> row \<and> row < n \<and> 0 \<le> col \<and> col < n)"

text \<open>The glossary's full site, in the spec's words: an open site connected to the top
  boundary (row 0) through a chain of axis-adjacent open sites. It is stated on the openness
  grid alone, to be compared with what \<^verbatim>\<open>isFull\<close> computes.\<close>

inductive spec_full :: "int \<Rightarrow> bool list \<Rightarrow> int \<Rightarrow> int \<Rightarrow> bool" for n :: int and g :: "bool list" where
  top: "in_grid n 0 col \<Longrightarrow> g ! nat (0 * n + col) \<Longrightarrow> spec_full n g 0 col"
| step: "spec_full n g row col \<Longrightarrow> in_grid n row' col' \<Longrightarrow> g ! nat (row' * n + col') \<Longrightarrow>
         \<bar>row' - row\<bar> + \<bar>col' - col\<bar> = 1 \<Longrightarrow> spec_full n g row' col'"

text \<open>The quick-find \<^verbatim>\<open>id\<close> vector describes the same partition as the forest (\<open>uf_sim\<close>), and
  a quick-find grid mirrors a quick-union grid of side \<open>n\<close> (\<open>sim\<close>); \<open>K\<close> and \<open>G\<close> are pairs
  of indices known to be connected and indices known to be open. Two outcomes agree when both
  calls return the same value and leave related objects (\<open>both_ok\<close>).\<close>

definition uf_sim :: "nat list \<Rightarrow> nat list \<Rightarrow> bool" where
  "uf_sim p ids = (forest p \<and> length ids = length p \<and>
     (\<forall>a<length p. \<forall>b<length p. same_root p a b \<longleftrightarrow> ids ! a = ids ! b))"

definition sim ::
  "int \<Rightarrow> (nat \<times> nat) set \<Rightarrow> nat set \<Rightarrow> Percolation \<Rightarrow> PercolationQuickFind \<Rightarrow> bool" where
  "sim n K G s q =
     (0 < n \<and> P_n s = n \<and> QF_n q = n \<and>
      P_grid s = QF_grid q \<and> length (P_grid s) = nat (n * n) \<and>
      length (P_parent s) = nat (n * n + 2) \<and> length (P_size s) = nat (n * n + 2) \<and>
      P_openSitesCount s = QF_openSitesCount q \<and>
      P_virtualTop s = nat (n * n) \<and> QF_virtualTop q = nat (n * n) \<and>
      P_virtualBottom s = nat (n * n + 1) \<and> QF_virtualBottom q = nat (n * n + 1) \<and>
      uf_sim (P_parent s) (QF_id q) \<and> uf_inv (P_parent s) (P_size s) \<and>
      (\<forall>(a, b)\<in>K. a < length (QF_id q) \<and> b < length (QF_id q) \<and> QF_id q ! a = QF_id q ! b) \<and>
      (\<forall>i\<in>G. i < length (P_grid s) \<and> P_grid s ! i))"

definition both_ok :: "('a \<Rightarrow> 's \<Rightarrow> 't \<Rightarrow> bool) \<Rightarrow> ('a, 's) result \<Rightarrow> ('a, 't) result \<Rightarrow> bool" where
  "both_ok R m m' = (\<exists>a s q. m = Some (Inr a, s) \<and> m' = Some (Inr a, q) \<and> R a s q)"

section \<open>Union-find: roots, path compression, linking\<close>

lemma P_find_at_root: "x < length p \<Longrightarrow> p ! x = x \<Longrightarrow> P_find p x = Some (x, p)"
  by (subst P_find.simps) (simp add: rd_def)

lemma P_find_at_child:
  "x < length p \<Longrightarrow> p ! x \<noteq> x \<Longrightarrow>
   P_find p x = (case P_find p (p ! x) of None \<Rightarrow> None
                 | Some (r, p1) \<Rightarrow> if x < length p1 then Some (r, p1[x := r]) else None)"
  by (subst P_find.simps) (auto simp: rd_def wr_def split: option.splits)

lemma root_of_lt: "root_of p x r \<Longrightarrow> x < length p"
  by (induction rule: root_of.induct) auto

lemma root_of_is_root: "root_of p x r \<Longrightarrow> r < length p \<and> p ! r = r"
  by (induction rule: root_of.induct) auto

lemma root_of_unfold:
  "root_of p x r \<longleftrightarrow>
     x < length p \<and> (if p ! x = x then r = x else root_of p (p ! x) r)"
  by (subst root_of.simps) auto

lemma root_of_fun: "root_of p x r \<Longrightarrow> root_of p x s \<Longrightarrow> r = s"
proof (induction arbitrary: s rule: root_of.induct)
  case (root x p)
  then show ?case by (subst (asm) root_of_unfold) simp
next
  case (step x p r)
  from step.prems step.hyps have "root_of p (p ! x) s"
    by (subst (asm) root_of_unfold) simp
  then show ?case by (rule step.IH)
qed

lemma root_of_self: "r < length p \<Longrightarrow> p ! r = r \<Longrightarrow> root_of p r s \<longleftrightarrow> s = r"
  by (subst root_of_unfold) simp

lemma root_of_compress:
  assumes xr: "root_of p x r" and ys: "root_of p y s"
  shows "root_of (p[x := r]) y s"
  using ys xr
proof (induction rule: root_of.induct)
  case (root y p)
  show ?case
  proof (cases "y = x")
    case True
    from root.prems root.hyps True have "r = x"
      using root_of_self[of x p r] by simp
    moreover have "p ! x = x" using root.hyps True by simp
    ultimately have "p[x := r] = p" by (metis list_update_id)
    then show ?thesis using root.hyps by (simp add: root_of.root)
  next
    case False
    then show ?thesis using root.hyps by - (rule root_of.root, simp_all)
  qed
next
  case (step y p s)
  have IH: "root_of (p[x := r]) (p ! y) s" using step.IH step.prems .
  show ?case
  proof (cases "y = x")
    case True
    from step.hyps have "root_of p y s" by (rule root_of.step)
    with step.prems True have rs: "r = s" using root_of_fun by blast
    from root_of_is_root[OF step.prems] have rr: "r < length p" "p ! r = r" by simp_all
    with step.hyps(2) True have ne: "r \<noteq> x" by auto
    from rr ne have "root_of (p[x := r]) r r" by - (rule root_of.root, simp_all)
    then show ?thesis using True step.hyps(1) rs ne
      by - (rule root_of.step, simp_all)
  next
    case False
    then show ?thesis using step.hyps(1,2) IH by - (rule root_of.step, simp_all)
  qed
qed

lemma root_of_link:
  assumes a: "a < length p" "p ! a = a" and b: "b < length p" "p ! b = b" and ab: "a \<noteq> b"
    and ys: "root_of p y s"
  shows "root_of (p[a := b]) y (if s = a then b else s)"
  using ys a b ab
proof (induction rule: root_of.induct)
  case (root y p)
  show ?case
  proof (cases "y = a")
    case True
    from root.prems have "root_of (p[a := b]) b b" by - (rule root_of.root, simp_all)
    then have "root_of (p[a := b]) a b"
      using root.prems by - (rule root_of.step, simp_all)
    then show ?thesis using True by simp
  next
    case False
    then have "root_of (p[a := b]) y y" using root.hyps by - (rule root_of.root, simp_all)
    then show ?thesis using False by simp
  qed
next
  case (step y p s)
  from step.hyps(2) step.prems(2) have ne: "y \<noteq> a" by auto
  have "root_of (p[a := b]) (p ! y) (if s = a then b else s)"
    by (rule step.IH[OF step.prems])
  then show ?case using ne step.hyps(1,2) by - (rule root_of.step, simp_all)
qed

lemma P_find_root_of:
  "root_of p x r \<Longrightarrow>
   \<exists>p'. P_find p x = Some (r, p') \<and> length p' = length p \<and>
        (\<forall>y s. root_of p y s \<longrightarrow> root_of p' y s)"
proof (induction rule: root_of.induct)
  case (root x p)
  then show ?case by (simp add: P_find_at_root)
next
  case (step x p r)
  then obtain p1 where p1: "P_find p (p ! x) = Some (r, p1)" "length p1 = length p"
    "\<forall>y s. root_of p y s \<longrightarrow> root_of p1 y s" by blast
  from step.hyps have "root_of p x r" by (simp add: root_of.step)
  with p1 have xr: "root_of p1 x r" by blast
  have "\<forall>y s. root_of p y s \<longrightarrow> root_of (p1[x := r]) y s"
    using p1(3) root_of_compress[OF xr] by blast
  moreover have "P_find p x = Some (r, p1[x := r])"
    using step.hyps(1,2) p1(1,2) by (subst P_find_at_child) simp_all
  ultimately show ?case using p1(2) by simp
qed

lemma forest_root_of_iff:
  assumes f: "forest p" and len: "length p' = length p"
    and pres: "\<And>y s. root_of p y s \<Longrightarrow> root_of p' (y::nat) (g s)"
  shows "root_of p' y t \<longleftrightarrow> (\<exists>s. root_of p y s \<and> t = g s)"
proof
  assume t: "root_of p' y t"
  then have "y < length p" using len root_of_lt by fastforce
  with f obtain s where s: "root_of p y s" unfolding forest_def by blast
  from pres[OF s] t have "t = g s" by (rule root_of_fun[symmetric])
  with s show "\<exists>s. root_of p y s \<and> t = g s" by blast
next
  assume "\<exists>s. root_of p y s \<and> t = g s"
  then show "root_of p' y t" using pres by blast
qed

lemma forest_P_find:
  assumes f: "forest p" and x: "x < length p"
  shows "\<exists>r p'. P_find p x = Some (r, p') \<and> root_of p x r \<and> length p' = length p \<and>
           root_of p' = root_of p"
proof -
  from f x obtain r where r: "root_of p x r" unfolding forest_def by blast
  from P_find_root_of[OF r] obtain p' where p': "P_find p x = Some (r, p')"
    "length p' = length p" "\<And>y s. root_of p y s \<Longrightarrow> root_of p' y s" by blast
  have "root_of p' y t \<longleftrightarrow> root_of p y t" for y t
    using forest_root_of_iff[OF f p'(2), of "\<lambda>s. s" y t] p'(3) by simp
  then have "root_of p' = root_of p" by blast
  with p' r show ?thesis by blast
qed

lemma forest_cong: "root_of p' = root_of p \<Longrightarrow> length p' = length p \<Longrightarrow> forest p' = forest p"
  by (simp add: forest_def)

lemma same_root_cong: "root_of p' = root_of p \<Longrightarrow> same_root p' = same_root p"
  by (intro ext) (simp add: same_root_def)

lemma uf_sim_cong:
  "root_of p' = root_of p \<Longrightarrow> length p' = length p \<Longrightarrow> uf_sim p' ids = uf_sim p ids"
  by (simp add: uf_sim_def forest_def same_root_def)

lemma init_loop: "fold (\<lambda>i v. v[i := i]) [0..<k] (replicate k 0) = [0..<k]"
proof -
  have "j \<le> length v \<Longrightarrow> fold (\<lambda>i v. v[i := i]) [0..<j] v = [0..<j] @ drop j v" for j and v :: "nat list"
  proof (induction j)
    case 0
    then show ?case by simp
  next
    case (Suc j)
    then have "fold (\<lambda>i v. v[i := i]) [0..<Suc j] v = ([0..<j] @ drop j v)[j := j]" by simp
    also have "\<dots> = [0..<j] @ (drop j v)[0 := j]" by (simp add: list_update_append)
    also have "(drop j v)[0 := j] = j # drop (Suc j) v"
    proof -
      from Suc.prems have "drop j v = v ! j # drop (Suc j) v"
        by (simp add: Cons_nth_drop_Suc)
      then show ?thesis by simp
    qed
    finally show ?case by simp
  qed
  from this[of k "replicate k 0"] show ?thesis by simp
qed

lemma root_of_init: "root_of [0..<k] x r \<longleftrightarrow> x < k \<and> r = x"
  by (subst root_of_unfold) auto

lemma forest_init: "forest [0..<k]"
  by (simp add: forest_def root_of_init)

lemma uf_sim_init: "uf_sim [0..<k] [0..<k]"
  by (auto simp: uf_sim_def forest_init same_root_def root_of_init)

lemma QF_relabel_map: "QF_relabel a b ids = Some (map (\<lambda>v. if v = a then b else v) ids)"
proof -
  let ?f = "\<lambda>i m. do { v \<leftarrow> m; c \<leftarrow> rd v i; if c = a then wr v i b else Some v }"
  let ?g = "\<lambda>v. if v = a then b else v"
  have "j \<le> length ids \<Longrightarrow> fold ?f [0..<j] (Some ids) = Some (map ?g (take j ids) @ drop j ids)" for j
  proof (induction j)
    case 0
    then show ?case by simp
  next
    case (Suc j)
    define v where "v = map ?g (take j ids) @ drop j ids"
    from Suc.prems have j: "j < length ids" by simp
    then have vj: "v ! j = ids ! j" and len: "j < length v"
      by (simp_all add: v_def nth_append)
    have upd: "v[j := c] = map ?g (take j ids) @ c # drop (Suc j) ids" for c
      using j by (simp add: v_def list_update_append upd_conv_take_nth_drop)
    have "fold ?f [0..<Suc j] (Some ids) = ?f j (Some v)"
      using Suc by (simp add: v_def)
    also have "\<dots> = Some (v[j := ?g (ids ! j)])"
    proof (cases "ids ! j = a")
      case True
      then show ?thesis using vj len by (simp add: rd_def wr_def)
    next
      case False
      moreover have "v[j := v ! j] = v" by (rule list_update_id)
      ultimately show ?thesis using vj len by (simp add: rd_def wr_def)
    qed
    also have "v[j := ?g (ids ! j)] = map ?g (take (Suc j) ids) @ drop (Suc j) ids"
      unfolding upd using j by (simp add: take_Suc_conv_app_nth)
    finally show ?case .
  qed
  from this[of "length ids"] show ?thesis by (simp add: QF_relabel_def)
qed

lemma same_root_iff:
  "root_of p u su \<Longrightarrow> root_of p v sv \<Longrightarrow> same_root p u v \<longleftrightarrow> su = sv"
  unfolding same_root_def using root_of_fun by blast

lemma uf_sim_link:
  assumes us: "uf_sim p ids" and x: "root_of p x rx" and y: "root_of p y ry" and ne: "rx \<noteq> ry"
    and ab: "(a = rx \<and> b = ry) \<or> (a = ry \<and> b = rx)"
  shows "uf_sim (p[a := b]) (map (\<lambda>v. if v = ids ! x then ids ! y else v) ids)"
proof -
  let ?g = "\<lambda>s. if s = a then b else s"
  let ?m = "\<lambda>v. if v = ids ! x then ids ! y else v"
  from us have f: "forest p" and len: "length ids = length p"
    and rel: "\<And>u v. u < length p \<Longrightarrow> v < length p \<Longrightarrow> same_root p u v \<longleftrightarrow> ids ! u = ids ! v"
    by (simp_all add: uf_sim_def)
  from root_of_is_root[OF x] root_of_is_root[OF y] ab ne
  have a: "a < length p" "p ! a = a" and b: "b < length p" "p ! b = b" and ne': "a \<noteq> b"
    by auto
  have xl: "x < length p" and yl: "y < length p"
    using x y by (simp_all add: root_of_lt)
  have link: "root_of (p[a := b]) z (?g s)" if "root_of p z s" for z s
    using root_of_link[OF a b ne' that] .
  have f': "forest (p[a := b])"
    unfolding forest_def using f link by (fastforce simp: forest_def)
  have "same_root (p[a := b]) u v \<longleftrightarrow> ?m (ids ! u) = ?m (ids ! v)"
    if u: "u < length p" and v: "v < length p" for u v
  proof -
    from f u obtain su where su: "root_of p u su" unfolding forest_def by blast
    from f v obtain sv where sv: "root_of p v sv" unfolding forest_def by blast
    have 1: "same_root (p[a := b]) u v \<longleftrightarrow> ?g su = ?g sv"
      by (rule same_root_iff[OF link[OF su] link[OF sv]])
    have ux: "su = rx \<longleftrightarrow> ids ! u = ids ! x"
      using rel[OF u xl] same_root_iff[OF su x] by simp
    have uy: "su = ry \<longleftrightarrow> ids ! u = ids ! y"
      using rel[OF u yl] same_root_iff[OF su y] by simp
    have vx: "sv = rx \<longleftrightarrow> ids ! v = ids ! x"
      using rel[OF v xl] same_root_iff[OF sv x] by simp
    have vy: "sv = ry \<longleftrightarrow> ids ! v = ids ! y"
      using rel[OF v yl] same_root_iff[OF sv y] by simp
    have uv: "su = sv \<longleftrightarrow> ids ! u = ids ! v"
      using rel[OF u v] same_root_iff[OF su sv] by simp
    have xy: "ids ! x \<noteq> ids ! y"
      using rel[OF xl yl] same_root_iff[OF x y] ne by simp
    from ab show ?thesis
    proof
      assume "a = rx \<and> b = ry"
      then show ?thesis unfolding 1 using ux uy vx vy uv xy by auto
    next
      assume "a = ry \<and> b = rx"
      then show ?thesis unfolding 1 using ux uy vx vy uv xy by auto
    qed
  qed
  then show ?thesis
    using f' len by (simp add: uf_sim_def)
qed

lemma seq_return: "seq (Some (Inr a, s)) f = f a s"
  by (simp add: seq_def)

lemma seq_throw: "seq (Some (Inl e, s)) f = Some (Inl e, s)"
  by (simp add: seq_def)

lemma both_ok_return: "R a s q \<Longrightarrow> both_ok R (Some (Inr a, s)) (Some (Inr a, q))"
  by (simp add: both_ok_def)

lemma both_ok_seq:
  assumes "both_ok R m m'" and "\<And>a s q. R a s q \<Longrightarrow> both_ok R' (f a s) (f' a q)"
  shows "both_ok R' (seq m f) (seq m' f')"
proof -
  from assms(1) obtain a s q where "m = Some (Inr a, s)" "m' = Some (Inr a, q)" "R a s q"
    unfolding both_ok_def by blast
  with assms(2) show ?thesis by (simp add: seq_return)
qed

lemma both_ok_weaken:
  "both_ok R m m' \<Longrightarrow> (\<And>a s q. R a s q \<Longrightarrow> R' a s q) \<Longrightarrow> both_ok R' m m'"
  unfolding both_ok_def by blast

lemma index_bound:
  assumes "in_grid n row col"
  shows "nat (row * n + col) < nat (n * n)"
proof -
  from assms have r: "0 \<le> row" "row \<le> n - 1" and c: "0 \<le> col" "col < n" and n: "0 < n"
    by (auto simp: in_grid_def)
  from r n have "row * n \<le> (n - 1) * n" by (intro mult_right_mono) simp_all
  also have "\<dots> = n * n - n" by (simp add: algebra_simps)
  finally have "row * n + col < n * n" using c by simp
  moreover have "0 \<le> row * n + col" using r c n by simp
  ultimately show ?thesis by simp
qed

lemma P_validate_in: "P_n s = n \<Longrightarrow> in_grid n row col \<Longrightarrow> P_validate s row col = Some (Inr (), s)"
  by (auto simp: P_validate_def in_grid_def)

lemma P_validate_out:
  "P_n s = n \<Longrightarrow> \<not> in_grid n row col \<Longrightarrow>
   P_validate s row col = Some (Inl (invalid_argument ''Index out of bounds''), s)"
  by (auto simp: P_validate_def in_grid_def)

lemma QF_validate_in: "QF_n s = n \<Longrightarrow> in_grid n row col \<Longrightarrow> QF_validate s row col = Some (Inr (), s)"
  by (auto simp: QF_validate_def in_grid_def)

lemma QF_validate_out:
  "QF_n s = n \<Longrightarrow> \<not> in_grid n row col \<Longrightarrow>
   QF_validate s row col = Some (Inl (invalid_argument ''Index out of bounds''), s)"
  by (auto simp: QF_validate_def in_grid_def)

lemma P_isOpen_in:
  assumes "P_n s = n" "length (P_grid s) = nat (n * n)" "in_grid n row col"
  shows "P_isOpen s row col = Some (Inr (P_grid s ! nat (row * n + col)), s)"
  using assms index_bound[OF assms(3)]
  by (simp add: P_isOpen_def P_validate_in seq_return rd_def P_getIndex_def)

lemma QF_isOpen_in:
  assumes "QF_n s = n" "length (QF_grid s) = nat (n * n)" "in_grid n row col"
  shows "QF_isOpen s row col = Some (Inr (QF_grid s ! nat (row * n + col)), s)"
  using assms index_bound[OF assms(3)]
  by (simp add: QF_isOpen_def QF_validate_in seq_return rd_def QF_getIndex_def)

lemma P_isOpen_out:
  "P_n s = n \<Longrightarrow> \<not> in_grid n row col \<Longrightarrow>
   P_isOpen s row col = Some (Inl (invalid_argument ''Index out of bounds''), s)"
  by (simp add: P_isOpen_def P_validate_out seq_throw)

lemma QF_isOpen_out:
  "QF_n s = n \<Longrightarrow> \<not> in_grid n row col \<Longrightarrow>
   QF_isOpen s row col = Some (Inl (invalid_argument ''Index out of bounds''), s)"
  by (simp add: QF_isOpen_def QF_validate_out seq_throw)

section \<open>Weighted union and the size invariant\<close>

lemma is_root_iff: "r < length p \<Longrightarrow> p ! r = r \<longleftrightarrow> root_of p r r"
  using root_of_is_root[of p r r] root_of.root[of r p] by blast

lemma uf_inv_cong:
  assumes "root_of p' = root_of p" "length p' = length p"
  shows "uf_inv p' sz = uf_inv p sz"
proof -
  have "p' ! r = r \<longleftrightarrow> p ! r = r" if "r < length p" for r
    using that assms is_root_iff[of r p] is_root_iff[of r p'] by simp
  then show ?thesis
    using assms forest_cong[OF assms] by (auto simp: uf_inv_def)
qed

lemma component_finite: "finite {x. root_of p x r}"
proof (rule finite_subset)
  show "{x. root_of p x r} \<subseteq> {..<length p}" using root_of_lt by auto
qed simp

lemma uf_inv_link:
  assumes inv: "uf_inv p sz" and a: "a < length p" "p ! a = a" and b: "b < length p" "p ! b = b"
    and ne: "a \<noteq> b"
  shows "uf_inv (p[a := b]) (sz[b := sz ! b + sz ! a])"
    and "root_of (p[a := b]) z t \<longleftrightarrow> (\<exists>u. root_of p z u \<and> t = (if u = a then b else u))"
proof -
  let ?g = "\<lambda>s. if s = a then b else s"
  let ?p = "p[a := b]"
  from inv have f: "forest p" and len: "length sz = length p"
    and sz: "\<And>r. r < length p \<Longrightarrow> p ! r = r \<Longrightarrow> sz ! r = card {x. root_of p x r}"
    by (simp_all add: uf_inv_def)
  have link: "root_of ?p z (?g s)" if "root_of p z s" for z s
    using root_of_link[OF a b ne that] .
  have iff: "root_of ?p z t \<longleftrightarrow> (\<exists>u. root_of p z u \<and> t = ?g u)" for z t
    by (rule forest_root_of_iff[OF f, of ?p ?g]) (simp_all add: link)
  then show "root_of (p[a := b]) z t \<longleftrightarrow> (\<exists>u. root_of p z u \<and> t = (if u = a then b else u))" .
  have f': "forest ?p"
    unfolding forest_def using f link by (fastforce simp: forest_def)
  have "(sz[b := sz ! b + sz ! a]) ! r = card {x. root_of ?p x r}"
    if r: "r < length p" and rr: "?p ! r = r" for r
  proof -
    from rr a ne have ra: "r \<noteq> a" by auto
    with rr have pr: "p ! r = r" by simp
    show ?thesis
    proof (cases "r = b")
      case True
      have "{x. root_of ?p x b} = {x. root_of p x a} \<union> {x. root_of p x b}"
        using ne by (auto simp: iff)
      moreover have "{x. root_of p x a} \<inter> {x. root_of p x b} = {}"
        using ne root_of_fun by auto
      ultimately have "card {x. root_of ?p x b} = card {x. root_of p x a} + card {x. root_of p x b}"
        by (simp add: card_Un_disjoint component_finite)
      then show ?thesis
        using True sz[OF a] sz[OF b] b(1) len by simp
    next
      case False
      with ra have "{x. root_of ?p x r} = {x. root_of p x r}" by (auto simp: iff)
      then show ?thesis using False sz[OF r pr] by simp
    qed
  qed
  then show "uf_inv (p[a := b]) (sz[b := sz ! b + sz ! a])"
    using f' len by (simp add: uf_inv_def)
qed

lemma uf_inv_init: "uf_inv [0..<k] (replicate k 1)"
proof -
  have "{x. x < k \<and> r = x} = {r}" if "r < k" for r using that by auto
  then show ?thesis by (simp add: uf_inv_def forest_init root_of_init)
qed

section \<open>The two backends in step\<close>

lemma sim_parent_cong:
  assumes "sim n K G s q" "root_of p' = root_of (P_parent s)" "length p' = length (P_parent s)"
  shows "sim n K G (s\<lparr>P_parent := p'\<rparr>) q"
  using assms uf_sim_cong[OF assms(2,3)] uf_inv_cong[OF assms(2,3)] by (auto simp: sim_def)

lemma two_finds:
  assumes f: "forest p" and x: "x < length p" and y: "y < length p"
  shows "\<exists>rx ry p1 p2. P_find p x = Some (rx, p1) \<and> P_find p1 y = Some (ry, p2) \<and>
           root_of p x rx \<and> root_of p y ry \<and> length p2 = length p \<and> root_of p2 = root_of p"
proof -
  from forest_P_find[OF f x] obtain rx p1 where 1: "P_find p x = Some (rx, p1)"
    "root_of p x rx" "length p1 = length p" "root_of p1 = root_of p" by blast
  from f 1(3,4) have f1: "forest p1" by (simp add: forest_def)
  from y 1(3) have y1: "y < length p1" by simp
  from forest_P_find[OF f1 y1] obtain ry p2 where 2: "P_find p1 y = Some (ry, p2)"
    "root_of p1 y ry" "length p2 = length p1" "root_of p2 = root_of p1" by blast
  from 1 2 show ?thesis by auto
qed

lemma sim_connected:
  assumes sm: "sim n K G s q" and x: "x < nat (n * n + 2)" and y: "y < nat (n * n + 2)"
  shows "\<exists>s'. P_connected s x y = Some (QF_id q ! x = QF_id q ! y, s') \<and>
              QF_connected q x y = Some (QF_id q ! x = QF_id q ! y) \<and> sim n K G s' q \<and>
              root_of (P_parent s') = root_of (P_parent s)"
proof -
  from sm have us: "uf_sim (P_parent s) (QF_id q)" and len: "length (P_parent s) = nat (n * n + 2)"
    by (simp_all add: sim_def)
  then have f: "forest (P_parent s)" and leni: "length (QF_id q) = nat (n * n + 2)"
    by (simp_all add: uf_sim_def)
  from two_finds[OF f] x y len obtain rx ry p1 p2 where
    fs: "P_find (P_parent s) x = Some (rx, p1)" "P_find p1 y = Some (ry, p2)"
        "root_of (P_parent s) x rx" "root_of (P_parent s) y ry"
        "length p2 = length (P_parent s)" "root_of p2 = root_of (P_parent s)"
    by (metis (no_types))
  from us x y len have "same_root (P_parent s) x y \<longleftrightarrow> QF_id q ! x = QF_id q ! y"
    by (simp add: uf_sim_def)
  with same_root_iff[OF fs(3,4)] have eq: "rx = ry \<longleftrightarrow> QF_id q ! x = QF_id q ! y" by simp
  have "P_connected s x y = Some (QF_id q ! x = QF_id q ! y, s\<lparr>P_parent := p2\<rparr>)"
    using fs(1,2) eq by (simp add: P_connected_def)
  moreover have "QF_connected q x y = Some (QF_id q ! x = QF_id q ! y)"
    using x y leni by (simp add: QF_connected_def QF_find_def rd_def)
  moreover have "sim n K G (s\<lparr>P_parent := p2\<rparr>) q"
    by (rule sim_parent_cong[OF sm fs(6,5)])
  ultimately show ?thesis using fs(6) by auto
qed

lemma sim_unionSites:
  assumes sm: "sim n K G s q" and x: "x < nat (n * n + 2)" and y: "y < nat (n * n + 2)"
  shows "both_ok (\<lambda>_. sim n K G) (effect (P_unionSites s x y)) (effect (QF_unionSites q x y))"
proof -
  from sm have us: "uf_sim (P_parent s) (QF_id q)" and len: "length (P_parent s) = nat (n * n + 2)"
    and lens: "length (P_size s) = nat (n * n + 2)"
    by (simp_all add: sim_def)
  then have f: "forest (P_parent s)" and leni: "length (QF_id q) = nat (n * n + 2)"
    by (simp_all add: uf_sim_def)
  from two_finds[OF f] x y len obtain rx ry p1 p2 where
    fs: "P_find (P_parent s) x = Some (rx, p1)" "P_find p1 y = Some (ry, p2)"
        "root_of (P_parent s) x rx" "root_of (P_parent s) y ry"
        "length p2 = length (P_parent s)" "root_of p2 = root_of (P_parent s)"
    by (metis (no_types))
  from us x y len have "same_root (P_parent s) x y \<longleftrightarrow> QF_id q ! x = QF_id q ! y"
    by (simp add: uf_sim_def)
  with same_root_iff[OF fs(3,4)] have eq: "rx = ry \<longleftrightarrow> QF_id q ! x = QF_id q ! y" by simp
  have qf: "QF_find q x = Some (QF_id q ! x)" "QF_find q y = Some (QF_id q ! y)"
    using x y leni by (simp_all add: QF_find_def rd_def)
  show ?thesis
  proof (cases "rx = ry")
    case True
    then have "P_unionSites s x y = Some (s\<lparr>P_parent := p2\<rparr>)"
      using fs(1,2) by (simp add: P_unionSites_def)
    moreover have "QF_unionSites q x y = Some q"
      using True eq qf by (simp add: QF_unionSites_def)
    moreover have "sim n K G (s\<lparr>P_parent := p2\<rparr>) q"
      by (rule sim_parent_cong[OF sm fs(6,5)])
    ultimately show ?thesis by (simp add: both_ok_def effect_def)
  next
    case False
    let ?ids = "map (\<lambda>v. if v = QF_id q ! x then QF_id q ! y else v) (QF_id q)"
    have us2: "uf_sim p2 (QF_id q)" using us uf_sim_cong[OF fs(6,5)] by simp
    from sm have "uf_inv (P_parent s) (P_size s)" by (simp add: sim_def)
    then have inv2: "uf_inv p2 (P_size s)" using uf_inv_cong[OF fs(6,5)] by simp
    have r2: "root_of p2 x rx" "root_of p2 y ry" using fs(3,4,6) by simp_all
    have rt2: "rx < length p2" "p2 ! rx = rx" "ry < length p2" "p2 ! ry = ry"
      using root_of_is_root[OF r2(1)] root_of_is_root[OF r2(2)] by simp_all
    from root_of_is_root[OF fs(3)] root_of_is_root[OF fs(4)] len lens fs(5)
    have bnd: "rx < length (P_size s)" "ry < length (P_size s)" "rx < length p2" "ry < length p2"
      by simp_all
    have qu: "QF_unionSites q x y = Some (q\<lparr>QF_id := ?ids\<rparr>)"
      using False eq qf by (simp add: QF_unionSites_def QF_relabel_map)
    have K: "\<forall>(a, b)\<in>K. a < length ?ids \<and> b < length ?ids \<and> ?ids ! a = ?ids ! b"
      using sm by (auto simp: sim_def)
    show ?thesis
    proof (cases "P_size s ! rx < P_size s ! ry")
      case True
      let ?s' = "s\<lparr>P_parent := p2[rx := ry],
                   P_size := (P_size s)[ry := P_size s ! ry + P_size s ! rx]\<rparr>"
      have "P_unionSites s x y = Some ?s'"
        using fs(1,2) False True bnd by (simp add: P_unionSites_def rd_def wr_def)
      moreover have "uf_sim (p2[rx := ry]) ?ids"
        by (rule uf_sim_link[OF us2 r2 False]) simp
      then have "sim n K G ?s' (q\<lparr>QF_id := ?ids\<rparr>)"
        using sm K fs(5) uf_inv_link(1)[OF inv2 rt2(1,2) rt2(3,4) False]
        by (auto simp: sim_def)
      ultimately show ?thesis using qu by (simp add: both_ok_def effect_def)
    next
      case lt: False
      let ?s' = "s\<lparr>P_parent := p2[ry := rx],
                   P_size := (P_size s)[rx := P_size s ! rx + P_size s ! ry]\<rparr>"
      have "P_unionSites s x y = Some ?s'"
        using fs(1,2) False lt bnd by (simp add: P_unionSites_def rd_def wr_def)
      moreover have "uf_sim (p2[ry := rx]) ?ids"
        by (rule uf_sim_link[OF us2 r2 False]) simp
      then have "sim n K G ?s' (q\<lparr>QF_id := ?ids\<rparr>)"
        using sm K fs(5) uf_inv_link(1)[OF inv2 rt2(3,4) rt2(1,2) False[symmetric]]
        by (auto simp: sim_def)
      ultimately show ?thesis using qu by (simp add: both_ok_def effect_def)
    qed
  qed
qed

lemma nn_bounds:
  "nat (n * n) < nat (n * n + 2)" "nat (n * n + 1) < nat (n * n + 2)"
  "i < nat (n * n) \<Longrightarrow> i < nat (n * n + 2)"
proof -
  have "0 \<le> n * n" by simp
  then show "nat (n * n) < nat (n * n + 2)" "nat (n * n + 1) < nat (n * n + 2)"
    "i < nat (n * n) \<Longrightarrow> i < nat (n * n + 2)" by linarith+
qed

lemma sim_n: "sim n K G s q \<Longrightarrow> P_n s = n \<and> QF_n q = n \<and> 0 < n"
  by (simp add: sim_def)

lemma sim_top:
  assumes sm: "sim n K G s q" and i: "i < nat (n * n)"
  shows "both_ok (\<lambda>_. sim n K G)
           (if c then effect (P_unionSites s i (P_virtualTop s)) else Some (Inr (), s))
           (if c then effect (QF_unionSites q i (QF_virtualTop q)) else Some (Inr (), q))"
proof -
  from sm have t: "P_virtualTop s = nat (n * n)" "QF_virtualTop q = nat (n * n)"
    by (simp_all add: sim_def)
  note nn_bounds(1)[of n]
  moreover from i have "i < nat (n * n + 2)" by (rule nn_bounds(3))
  ultimately show ?thesis
    using sm sim_unionSites[of n K G s q i "nat (n * n)"] by (simp add: t both_ok_return)
qed

lemma sim_bottom:
  assumes sm: "sim n K G s q" and i: "i < nat (n * n)"
  shows "both_ok (\<lambda>_. sim n K G)
           (if row = P_n s - 1 then effect (P_unionSites s i (P_virtualBottom s))
            else Some (Inr (), s))
           (if row = QF_n q - 1 then effect (QF_unionSites q i (QF_virtualBottom q))
            else Some (Inr (), q))"
proof -
  from sm have t: "P_virtualBottom s = nat (n * n + 1)" "QF_virtualBottom q = nat (n * n + 1)"
    and n: "P_n s = n" "QF_n q = n"
    by (simp_all add: sim_def)
  note nn_bounds(2)[of n]
  moreover from i have "i < nat (n * n + 2)" by (rule nn_bounds(3))
  ultimately show ?thesis
    using sm sim_unionSites[of n K G s q i "nat (n * n + 1)"] by (simp add: t n both_ok_return)
qed

lemma sim_block:
  assumes sm: "sim n K G s q" and i: "i < nat (n * n)" and c: "cP = cQ"
    and v: "cP \<Longrightarrow> in_grid n r c'"
  shows "both_ok (\<lambda>_. sim n K G)
           (seq (if cP then P_isOpen s r c' else Some (Inr False, s)) (\<lambda>b s.
              if b then effect (P_unionSites s i (P_getIndex s r c')) else Some (Inr (), s)))
           (seq (if cQ then QF_isOpen q r c' else Some (Inr False, q)) (\<lambda>b s.
              if b then effect (QF_unionSites s i (QF_getIndex s r c')) else Some (Inr (), s)))"
proof (cases cP)
  case False
  with c sm show ?thesis by (simp add: seq_return both_ok_return)
next
  case True
  from sm have n: "P_n s = n" "QF_n q = n" and g: "P_grid s = QF_grid q"
    "length (P_grid s) = nat (n * n)" "length (QF_grid q) = nat (n * n)"
    by (auto simp: sim_def)
  from index_bound[OF v[OF True]] have j: "nat (r * n + c') < nat (n * n + 2)"
    by (rule nn_bounds(3))
  from i have i2: "i < nat (n * n + 2)" by (rule nn_bounds(3))
  show ?thesis
    using True c n g sm sim_unionSites[OF sm i2 j]
    by (simp add: P_isOpen_in[OF n(1) g(2) v[OF True]] QF_isOpen_in[OF n(2) g(3) v[OF True]]
                  seq_return both_ok_return P_getIndex_def QF_getIndex_def)
qed

lemma sim_mark:
  assumes sm: "sim n K G s q" and i: "i < nat (n * n)"
  shows "both_ok (\<lambda>_. sim n K (insert i G))
           (effect (do { g \<leftarrow> wr (P_grid s) i True;
                         Some (s\<lparr>P_grid := g, P_openSitesCount := P_openSitesCount s + 1\<rparr>) }))
           (effect (do { g \<leftarrow> wr (QF_grid q) i True;
                         Some (q\<lparr>QF_grid := g, QF_openSitesCount := QF_openSitesCount q + 1\<rparr>) }))"
  using assms by (auto simp: sim_def both_ok_def effect_def wr_def nth_list_update)

lemma sim_open_in:
  assumes sm: "sim n K G s q" and v: "in_grid n row col"
  shows "both_ok (\<lambda>_. sim n K (insert (nat (row * n + col)) G))
           (P_open s row col) (QF_open q row col)"
proof -
  let ?i = "nat (row * n + col)"
  let ?G = "insert ?i G"
  from sm have n: "P_n s = n" "QF_n q = n" and g: "P_grid s = QF_grid q"
    "length (P_grid s) = nat (n * n)" "length (QF_grid q) = nat (n * n)"
    by (auto simp: sim_def)
  note i = index_bound[OF v]
  have iP: "P_getIndex s row col = ?i" and iQ: "QF_getIndex q row col = ?i"
    by (simp_all add: P_getIndex_def QF_getIndex_def n)
  show ?thesis
  proof (cases "P_grid s ! ?i")
    case True
    then have "sim n K ?G s q" using sm i by (auto simp: sim_def)
    then show ?thesis
      using True g(1)
      by (simp add: P_open_def QF_open_def P_validate_in[OF n(1) v] QF_validate_in[OF n(2) v]
                    P_isOpen_in[OF n(1) g(2) v] QF_isOpen_in[OF n(2) g(3) v]
                    seq_return both_ok_return)
  next
    case False
    let ?tP = "(seq (effect (do { g \<leftarrow> wr (P_grid s) ?i True;
                         Some (s\<lparr>P_grid := g, P_openSitesCount := P_openSitesCount s + 1\<rparr>) })) (\<lambda>_ s.
       seq (if row = 0 then effect (P_unionSites s ?i (P_virtualTop s))
            else Some (Inr (), s)) (\<lambda>_ s.
       seq (if row = P_n s - 1 then effect (P_unionSites s ?i (P_virtualBottom s))
            else Some (Inr (), s)) (\<lambda>_ s.
       seq (seq (if row > 0 then P_isOpen s (row - 1) col else Some (Inr False, s)) (\<lambda>up s.
              if up then effect (P_unionSites s ?i (P_getIndex s (row - 1) col))
              else Some (Inr (), s))) (\<lambda>_ s.
       seq (seq (if row < P_n s - 1 then P_isOpen s (row + 1) col else Some (Inr False, s)) (\<lambda>down s.
              if down then effect (P_unionSites s ?i (P_getIndex s (row + 1) col))
              else Some (Inr (), s))) (\<lambda>_ s.
       seq (seq (if col > 0 then P_isOpen s row (col - 1) else Some (Inr False, s)) (\<lambda>left s.
              if left then effect (P_unionSites s ?i (P_getIndex s row (col - 1)))
              else Some (Inr (), s))) (\<lambda>_ s.
       seq (if col < P_n s - 1 then P_isOpen s row (col + 1) else Some (Inr False, s)) (\<lambda>right s.
         if right then effect (P_unionSites s ?i (P_getIndex s row (col + 1)))
         else Some (Inr (), s)))))))))"
    let ?tQ = "(seq (effect (do { g \<leftarrow> wr (QF_grid q) ?i True;
                         Some (q\<lparr>QF_grid := g, QF_openSitesCount := QF_openSitesCount q + 1\<rparr>) })) (\<lambda>_ s.
       seq (if row = 0 then effect (QF_unionSites s ?i (QF_virtualTop s))
            else Some (Inr (), s)) (\<lambda>_ s.
       seq (if row = QF_n s - 1 then effect (QF_unionSites s ?i (QF_virtualBottom s))
            else Some (Inr (), s)) (\<lambda>_ s.
       seq (seq (if row > 0 then QF_isOpen s (row - 1) col else Some (Inr False, s)) (\<lambda>up s.
              if up then effect (QF_unionSites s ?i (QF_getIndex s (row - 1) col))
              else Some (Inr (), s))) (\<lambda>_ s.
       seq (seq (if row < QF_n s - 1 then QF_isOpen s (row + 1) col else Some (Inr False, s)) (\<lambda>down s.
              if down then effect (QF_unionSites s ?i (QF_getIndex s (row + 1) col))
              else Some (Inr (), s))) (\<lambda>_ s.
       seq (seq (if col > 0 then QF_isOpen s row (col - 1) else Some (Inr False, s)) (\<lambda>left s.
              if left then effect (QF_unionSites s ?i (QF_getIndex s row (col - 1)))
              else Some (Inr (), s))) (\<lambda>_ s.
       seq (if col < QF_n s - 1 then QF_isOpen s row (col + 1) else Some (Inr False, s)) (\<lambda>right s.
         if right then effect (QF_unionSites s ?i (QF_getIndex s row (col + 1)))
         else Some (Inr (), s)))))))))"
    have tail: "both_ok (\<lambda>_. sim n K ?G) ?tP ?tQ"
      apply (rule both_ok_seq[where R = "\<lambda>_. sim n K ?G"])
       apply (rule sim_mark[OF sm i])
      apply (rule both_ok_seq[where R = "\<lambda>_. sim n K ?G"])
       apply (rule sim_top[OF _ i], assumption)
      apply (rule both_ok_seq[where R = "\<lambda>_. sim n K ?G"])
       apply (rule sim_bottom[OF _ i], assumption)
      apply (rule both_ok_seq[where R = "\<lambda>_. sim n K ?G"])
       apply (rule sim_block[OF _ i], assumption)
      using v apply (auto dest!: sim_n simp: in_grid_def)[2]
      apply (rule both_ok_seq[where R = "\<lambda>_. sim n K ?G"])
       apply (rule sim_block[OF _ i], assumption)
      using v apply (auto dest!: sim_n simp: in_grid_def)[2]
      apply (rule both_ok_seq[where R = "\<lambda>_. sim n K ?G"])
       apply (rule sim_block[OF _ i], assumption)
      using v apply (auto dest!: sim_n simp: in_grid_def)[2]
      apply (rule sim_block[OF _ i], assumption)
      using v apply (auto dest!: sim_n simp: in_grid_def)[2]
      done
    have Pe: "P_open s row col = ?tP"
      using False
      apply (simp add: P_open_def P_validate_in[OF n(1) v] P_isOpen_in[OF n(1) g(2) v]
                       seq_return Let_def)
      apply (unfold iP)
      apply (rule refl)
      done
    from False g(1) have "\<not> QF_grid q ! ?i" by simp
    then have Qe: "QF_open q row col = ?tQ"
      apply (simp add: QF_open_def QF_validate_in[OF n(2) v] QF_isOpen_in[OF n(2) g(3) v]
                       seq_return Let_def)
      apply (unfold iQ)
      apply (rule refl)
      done
    show ?thesis unfolding Pe Qe by (rule tail)
  qed
qed

lemma sim_mono: "sim n K G s q \<Longrightarrow> K' \<subseteq> K \<Longrightarrow> G' \<subseteq> G \<Longrightarrow> sim n K' G' s q"
  unfolding sim_def by (intro conjI; blast)

lemma P_open_out:
  "P_n s = n \<Longrightarrow> \<not> in_grid n row col \<Longrightarrow>
   P_open s row col = Some (Inl (invalid_argument ''Index out of bounds''), s)"
  by (simp add: P_open_def P_validate_out seq_throw)

lemma QF_open_out:
  "QF_n s = n \<Longrightarrow> \<not> in_grid n row col \<Longrightarrow>
   QF_open s row col = Some (Inl (invalid_argument ''Index out of bounds''), s)"
  by (simp add: QF_open_def QF_validate_out seq_throw)

lemma P_isFull_out:
  "P_n s = n \<Longrightarrow> \<not> in_grid n row col \<Longrightarrow>
   P_isFull s row col = Some (Inl (invalid_argument ''Index out of bounds''), s)"
  by (simp add: P_isFull_def P_validate_out seq_throw)

lemma QF_isFull_out:
  "QF_n s = n \<Longrightarrow> \<not> in_grid n row col \<Longrightarrow>
   QF_isFull s row col = Some (Inl (invalid_argument ''Index out of bounds''), s)"
  by (simp add: QF_isFull_def QF_validate_out seq_throw)

lemma sim_open:
  assumes sm: "sim n K G s q"
  shows "\<exists>out s' q'. P_open s row col = Some (out, s') \<and> QF_open q row col = Some (out, q') \<and>
           sim n K G s' q'"
proof (cases "in_grid n row col")
  case True
  from sim_open_in[OF sm True] obtain a s' q' where
    "P_open s row col = Some (Inr a, s')" "QF_open q row col = Some (Inr a, q')"
    "sim n K (insert (nat (row * n + col)) G) s' q'"
    unfolding both_ok_def by blast
  moreover from this(3) have "sim n K G s' q'" by (rule sim_mono) auto
  ultimately show ?thesis by blast
next
  case False
  from sm have "P_n s = n" "QF_n q = n" by (simp_all add: sim_def)
  with False sm show ?thesis by (simp add: P_open_out QF_open_out)
qed

lemma sim_isFull_in:
  assumes sm: "sim n K G s q" and v: "in_grid n row col"
  shows "\<exists>s'. P_isFull s row col =
                 Some (Inr (QF_grid q ! nat (row * n + col) \<and>
                            QF_id q ! nat (row * n + col) = QF_id q ! nat (n * n)), s') \<and>
              QF_isFull q row col =
                 Some (Inr (QF_grid q ! nat (row * n + col) \<and>
                            QF_id q ! nat (row * n + col) = QF_id q ! nat (n * n)), q) \<and>
              sim n K G s' q \<and> root_of (P_parent s') = root_of (P_parent s) \<and>
              s' = s\<lparr>P_parent := P_parent s'\<rparr>"
proof -
  let ?i = "nat (row * n + col)"
  from sm have n: "P_n s = n" "QF_n q = n" and g: "P_grid s = QF_grid q"
    "length (P_grid s) = nat (n * n)" "length (QF_grid q) = nat (n * n)"
    and t: "P_virtualTop s = nat (n * n)" "QF_virtualTop q = nat (n * n)"
    by (auto simp: sim_def)
  have iP: "P_getIndex s row col = ?i" and iQ: "QF_getIndex q row col = ?i"
    by (simp_all add: P_getIndex_def QF_getIndex_def n)
  show ?thesis
  proof (cases "QF_grid q ! ?i")
    case False
    then show ?thesis
      using sm g(1)
      by (simp add: P_isFull_def QF_isFull_def P_validate_in[OF n(1) v] QF_validate_in[OF n(2) v]
                    P_isOpen_in[OF n(1) g(2) v] QF_isOpen_in[OF n(2) g(3) v] seq_return)
  next
    case True
    from sim_connected[OF sm nn_bounds(3)[OF index_bound[OF v]] nn_bounds(1)]
    obtain s' where c: "P_connected s ?i (nat (n * n)) = Some (QF_id q ! ?i = QF_id q ! nat (n * n), s')"
      "QF_connected q ?i (nat (n * n)) = Some (QF_id q ! ?i = QF_id q ! nat (n * n))"
      "sim n K G s' q" "root_of (P_parent s') = root_of (P_parent s)"
      by blast
    from c(1) have "s' = s\<lparr>P_parent := P_parent s'\<rparr>"
      by (auto simp: P_connected_def split: Option.bind_splits)
    with True c show ?thesis
      using g(1)
      by (simp add: P_isFull_def QF_isFull_def P_validate_in[OF n(1) v] QF_validate_in[OF n(2) v]
                    P_isOpen_in[OF n(1) g(2) v] QF_isOpen_in[OF n(2) g(3) v] seq_return iP iQ t)
  qed
qed

lemma sim_percolates:
  assumes sm: "sim n K G s q"
  shows "\<exists>s'. P_percolates s =
                 Some (Inr (QF_id q ! nat (n * n) = QF_id q ! nat (n * n + 1)), s') \<and>
              QF_percolates q =
                 Some (Inr (QF_id q ! nat (n * n) = QF_id q ! nat (n * n + 1)), q) \<and>
              sim n K G s' q \<and> root_of (P_parent s') = root_of (P_parent s) \<and>
              s' = s\<lparr>P_parent := P_parent s'\<rparr>"
proof -
  from sm have t: "P_virtualTop s = nat (n * n)" "QF_virtualTop q = nat (n * n)"
    "P_virtualBottom s = nat (n * n + 1)" "QF_virtualBottom q = nat (n * n + 1)"
    by (auto simp: sim_def)
  from sim_connected[OF sm nn_bounds(1) nn_bounds(2)]
  obtain s' where c:
    "P_connected s (nat (n * n)) (nat (n * n + 1)) =
       Some (QF_id q ! nat (n * n) = QF_id q ! nat (n * n + 1), s')"
    "QF_connected q (nat (n * n)) (nat (n * n + 1)) =
       Some (QF_id q ! nat (n * n) = QF_id q ! nat (n * n + 1))"
    "sim n K G s' q" "root_of (P_parent s') = root_of (P_parent s)"
    by blast
  from c(1) have "s' = s\<lparr>P_parent := P_parent s'\<rparr>"
    by (auto simp: P_connected_def split: Option.bind_splits)
  with c show ?thesis by (simp add: P_percolates_def QF_percolates_def t)
qed

lemma returning_simps:
  "returning f (Some (Inr a, s)) = Some (Inr (f a), s)"
  "returning f (Some (Inl e, s)) = Some (Inl e, s)"
  by (simp_all add: returning_def)

lemma sim_query:
  assumes q: "is_query c" and sm: "sim n K G s q"
  shows "\<exists>out s'. P_call s c = Some (out, s') \<and> QF_call q c = Some (out, q) \<and>
           sim n K G s' q \<and> root_of (P_parent s') = root_of (P_parent s) \<and>
           s' = s\<lparr>P_parent := P_parent s'\<rparr>"
proof (cases c)
  case (Open row col)
  with q show ?thesis by simp
next
  case (IsOpen row col)
  from sm have n: "P_n s = n" "QF_n q = n" and g: "P_grid s = QF_grid q"
    "length (P_grid s) = nat (n * n)" "length (QF_grid q) = nat (n * n)"
    by (auto simp: sim_def)
  show ?thesis
  proof (cases "in_grid n row col")
    case True
    then show ?thesis
      using sm IsOpen g(1)
      by (simp add: P_isOpen_in[OF n(1) g(2)] QF_isOpen_in[OF n(2) g(3)] returning_simps)
  next
    case False
    then show ?thesis
      using sm IsOpen by (simp add: P_isOpen_out[OF n(1)] QF_isOpen_out[OF n(2)] returning_simps)
  qed
next
  case (IsFull row col)
  from sm have n: "P_n s = n" "QF_n q = n" by (auto simp: sim_def)
  show ?thesis
  proof (cases "in_grid n row col")
    case True
    from sim_isFull_in[OF sm True] obtain s' b where
      "P_isFull s row col = Some (Inr b, s')" "QF_isFull q row col = Some (Inr b, q)"
      "sim n K G s' q" "root_of (P_parent s') = root_of (P_parent s)"
      "s' = s\<lparr>P_parent := P_parent s'\<rparr>"
      by blast
    then show ?thesis using IsFull by (auto simp: returning_simps)
  next
    case False
    then show ?thesis
      using sm IsFull by (simp add: P_isFull_out[OF n(1)] QF_isFull_out[OF n(2)] returning_simps)
  qed
next
  case NumberOfOpenSites
  from sm have "P_openSitesCount s = QF_openSitesCount q" by (simp add: sim_def)
  then show ?thesis
    using sm NumberOfOpenSites
    by (simp add: P_numberOfOpenSites_def QF_numberOfOpenSites_def returning_simps)
next
  case Percolates
  from sim_percolates[OF sm] obtain s' b where
    "P_percolates s = Some (Inr b, s')" "QF_percolates q = Some (Inr b, q)"
    "sim n K G s' q" "root_of (P_parent s') = root_of (P_parent s)"
    "s' = s\<lparr>P_parent := P_parent s'\<rparr>"
    by blast
  then show ?thesis using Percolates by (auto simp: returning_simps)
qed

lemma sim_call:
  assumes sm: "sim n K G s q"
  shows "\<exists>out s' q'. P_call s c = Some (out, s') \<and> QF_call q c = Some (out, q') \<and>
           sim n K G s' q'"
proof (cases "is_query c")
  case True
  from sim_query[OF True sm] show ?thesis by blast
next
  case False
  then obtain row col where c: "c = Open row col" by (cases c) auto
  from sim_open[OF sm, of row col] obtain out s' q' where
    "P_open s row col = Some (out, s')" "QF_open q row col = Some (out, q')" "sim n K G s' q'"
    by blast
  then show ?thesis using c by (cases out) (auto simp: returning_simps)
qed

lemma sim_run:
  "sim n K G s q \<Longrightarrow>
   \<exists>outs s' q'. P_run s cs = Some (outs, s') \<and> QF_run q cs = Some (outs, q') \<and>
      sim n K G s' q'"
proof (induction cs arbitrary: s q)
  case Nil
  then show ?case by simp
next
  case (Cons c cs)
  from sim_call[OF Cons.prems, of c] obtain out s1 q1 where
    1: "P_call s c = Some (out, s1)" "QF_call q c = Some (out, q1)" "sim n K G s1 q1"
    by blast
  from Cons.IH[OF 1(3)] obtain outs s' q' where
    2: "P_run s1 cs = Some (outs, s')" "QF_run q1 cs = Some (outs, q')" "sim n K G s' q'"
    by blast
  from 1 2 show ?case by simp
qed

lemma sim_new:
  assumes "0 < n" "n * n + 2 \<le> INT_MAX"
  shows "\<exists>s q. P_new n = Some (Inr s) \<and> QF_new n = Some (Inr q) \<and> sim n {} {} s q"
  using assms uf_inv_init[of "nat (n * n + 2)"]
  by (simp add: P_new_def QF_new_def Let_def init_loop sim_def uf_sim_init)

section \<open>Reachable states\<close>

lemma P_new_Inr: "P_new n = Some (Inr s0) \<Longrightarrow> 0 < n \<and> n * n + 2 \<le> INT_MAX"
  by (simp add: P_new_def split: if_splits)

lemma reach_sim:
  assumes "P_new n = Some (Inr s0)" "P_run s0 cs = Some (outs, s)"
  shows "\<exists>q0 q. QF_new n = Some (Inr q0) \<and> QF_run q0 cs = Some (outs, q) \<and> sim n {} {} s q"
proof -
  from P_new_Inr[OF assms(1)] have "0 < n" "n * n + 2 \<le> INT_MAX" by simp_all
  from sim_new[OF this] assms(1) obtain q0 where
    q0: "QF_new n = Some (Inr q0)" "sim n {} {} s0 q0" by auto
  from sim_run[OF q0(2), of cs] assms(2) q0(1) show ?thesis by auto
qed

lemma reachable_uf_inv:
  assumes "P_new n = Some (Inr s0)" "P_run s0 cs = Some (outs, s)"
  shows "uf_inv (P_parent s) (P_size s)"
proof -
  from reach_sim[OF assms] obtain q where "sim n {} {} s q" by blast
  then show ?thesis by (simp add: sim_def)
qed

lemmas P_eval = P_new_def P_run.simps P_call.simps P_open_def P_isOpen_def P_isFull_def
  P_percolates_def P_numberOfOpenSites_def P_validate_def P_getIndex_def P_unionSites_def
  P_connected_def seq_def effect_def returning_def rd_def wr_def Let_def INT_MAX_def
  P_find_at_root P_find_at_child init_loop in_grid_def

lemma upt_3: "[0..<3] = [0, 1, 2]"
  by code_simp

text \<open>The 1-by-1 grid and the grid after its only site is opened.\<close>

lemma P_new_1:
  "P_new 1 = Some (Inr \<lparr>P_n = 1, P_grid = [False], P_parent = [0, 1, 2], P_size = [1, 1, 1],
     P_openSitesCount = 0, P_virtualTop = 1, P_virtualBottom = 2\<rparr>)"
  by (simp add: P_eval upt_3 numeral_3_eq_3)

lemma P_run_1:
  "P_run \<lparr>P_n = 1, P_grid = [False], P_parent = [0, 1, 2], P_size = [1, 1, 1],
     P_openSitesCount = 0, P_virtualTop = 1, P_virtualBottom = 2\<rparr> [Open 0 0] =
   Some ([Inr VUnit], \<lparr>P_n = 1, P_grid = [True], P_parent = [0, 0, 0], P_size = [3, 1, 1],
     P_openSitesCount = 1, P_virtualTop = 1, P_virtualBottom = 2\<rparr>)"
  by (simp add: P_eval)

section \<open>The claims\<close>

text \<open>
  \<^bold>\<open>C1\<close> (cross-backend equivalence). A session constructs a grid of side \<open>n\<close> and makes
  the calls \<open>cs\<close> on it one after the other, any mixture of \<^verbatim>\<open>open\<close>, \<^verbatim>\<open>isOpen\<close>, \<^verbatim>\<open>isFull\<close>,
  \<^verbatim>\<open>percolates\<close> and \<^verbatim>\<open>numberOfOpenSites\<close> with any arguments; its result is the list of what
  the calls gave back. For every \<open>n > 0\<close> the weighted quick-union backend and the quick-find
  backend give the same result for every \<open>cs\<close>, hence the same answers to the queries after
  every prefix of every sequence of \<^verbatim>\<open>open\<close> calls; and when \<open>n * n + 2\<close> fits an \<^verbatim>\<open>int\<close>
  both sessions run to their end.
\<close>

theorem backends_agree:
  assumes "0 < n"
  shows "P_session n cs = QF_session n cs \<and>
         (n * n + 2 \<le> INT_MAX \<longrightarrow>
            (\<exists>outs. P_session n cs = Some (Inr outs) \<and> QF_session n cs = Some (Inr outs) \<and>
                    length outs = length cs))"
proof (cases "n * n + 2 \<le> INT_MAX")
  case True
  from sim_new[OF assms True] obtain s0 q0 where
    0: "P_new n = Some (Inr s0)" "QF_new n = Some (Inr q0)" "sim n {} {} s0 q0" by blast
  from sim_run[OF 0(3), of cs] obtain outs s q where
    1: "P_run s0 cs = Some (outs, s)" "QF_run q0 cs = Some (outs, q)" by blast
  have "length outs = length cs" if "P_run s0 cs = Some (outs, s)" for s0 outs s
    using that by (induction cs arbitrary: s0 outs) (auto split: option.splits)
  with 0 1 show ?thesis by (auto simp: P_session_def QF_session_def)
next
  case False
  with assms show ?thesis by (simp add: P_session_def QF_session_def P_new_def QF_new_def)
qed

theorem backends_agree_witness:
  "(0::int) < 2 \<and> (2::int) * 2 + 2 \<le> INT_MAX \<and>
   P_session 2 [Open 0 0, IsFull 0 0, Percolates, Open 1 0, Percolates, IsFull 1 0, IsOpen 0 1,
                Open 2 0, NumberOfOpenSites] =
     Some (Inr [Inr VUnit, Inr (VBool True), Inr (VBool False), Inr VUnit, Inr (VBool True),
                Inr (VBool True), Inr (VBool False),
                Inl (invalid_argument ''Index out of bounds''), Inr (VInt 2)]) \<and>
   QF_session 2 [Open 0 0, IsFull 0 0, Percolates, Open 1 0, Percolates, IsFull 1 0, IsOpen 0 1,
                 Open 2 0, NumberOfOpenSites] =
     Some (Inr [Inr VUnit, Inr (VBool True), Inr (VBool False), Inr VUnit, Inr (VBool True),
                Inr (VBool True), Inr (VBool False),
                Inl (invalid_argument ''Index out of bounds''), Inr (VInt 2)])"
proof -
  let ?cs = "[Open 0 0, IsFull 0 0, Percolates, Open 1 0, Percolates, IsFull 1 0, IsOpen 0 1,
              Open 2 0, NumberOfOpenSites]"
  have u: "[0..<6] = [0, 1, 2, 3, 4, 5]" by code_simp
  have p: "P_session 2 ?cs =
     Some (Inr [Inr VUnit, Inr (VBool True), Inr (VBool False), Inr VUnit, Inr (VBool True),
                Inr (VBool True), Inr (VBool False),
                Inl (invalid_argument ''Index out of bounds''), Inr (VInt 2)])"
    by (simp add: P_session_def P_eval u eval_nat_numeral)
  have b: "(0::int) < 2" "(2::int) * 2 + 2 \<le> INT_MAX" by (simp_all add: INT_MAX_def)
  from backends_agree[OF b(1), of ?cs] have "P_session 2 ?cs = QF_session 2 ?cs" by (rule conjunct1)
  with p have "QF_session 2 ?cs =
     Some (Inr [Inr VUnit, Inr (VBool True), Inr (VBool False), Inr VUnit, Inr (VBool True),
                Inr (VBool True), Inr (VBool False),
                Inl (invalid_argument ''Index out of bounds''), Inr (VInt 2)])"
    by (simp only:)
  with p b show ?thesis by (intro conjI)
qed

text \<open>
  \<^bold>\<open>C3\<close> (a full site is open). In every state \<open>s\<close> that a client can reach (construct a
  grid of side \<open>n\<close>, make any calls \<open>cs\<close>) and for every \<open>(row, col)\<close> within the grid, both
  \<^verbatim>\<open>isFull\<close> and \<^verbatim>\<open>isOpen\<close> return, and \<^verbatim>\<open>isFull\<close> returning true implies \<^verbatim>\<open>isOpen\<close> returning
  true.
\<close>

theorem isFull_implies_isOpen:
  assumes "P_new n = Some (Inr s0)" and "P_run s0 cs = Some (outs, s)"
    and "0 \<le> row" "row < n" "0 \<le> col" "col < n"
  shows "\<exists>full isopen s'. P_isFull s row col = Some (Inr full, s') \<and>
           P_isOpen s row col = Some (Inr isopen, s) \<and> (full \<longrightarrow> isopen)"
proof -
  from reach_sim[OF assms(1,2)] obtain q where sm: "sim n {} {} s q" by blast
  from assms(3-6) have v: "in_grid n row col" by (simp add: in_grid_def)
  from sm have n: "P_n s = n" and g: "P_grid s = QF_grid q" "length (P_grid s) = nat (n * n)"
    by (auto simp: sim_def)
  from sim_isFull_in[OF sm v] P_isOpen_in[OF n g(2) v] g(1) show ?thesis by auto
qed

theorem isFull_implies_isOpen_witness:
  "P_new 1 = Some (Inr \<lparr>P_n = 1, P_grid = [False], P_parent = [0, 1, 2], P_size = [1, 1, 1],
     P_openSitesCount = 0, P_virtualTop = 1, P_virtualBottom = 2\<rparr>) \<and>
   P_run \<lparr>P_n = 1, P_grid = [False], P_parent = [0, 1, 2], P_size = [1, 1, 1],
     P_openSitesCount = 0, P_virtualTop = 1, P_virtualBottom = 2\<rparr> [Open 0 0] =
     Some ([Inr VUnit], \<lparr>P_n = 1, P_grid = [True], P_parent = [0, 0, 0], P_size = [3, 1, 1],
       P_openSitesCount = 1, P_virtualTop = 1, P_virtualBottom = 2\<rparr>) \<and>
   (0::int) \<le> 0 \<and> (0::int) < 1 \<and>
   (\<exists>full isopen s'.
      P_isFull \<lparr>P_n = 1, P_grid = [True], P_parent = [0, 0, 0], P_size = [3, 1, 1],
        P_openSitesCount = 1, P_virtualTop = 1, P_virtualBottom = 2\<rparr> 0 0 = Some (Inr full, s') \<and>
      P_isOpen \<lparr>P_n = 1, P_grid = [True], P_parent = [0, 0, 0], P_size = [3, 1, 1],
        P_openSitesCount = 1, P_virtualTop = 1, P_virtualBottom = 2\<rparr> 0 0 =
        Some (Inr isopen, \<lparr>P_n = 1, P_grid = [True], P_parent = [0, 0, 0], P_size = [3, 1, 1],
          P_openSitesCount = 1, P_virtualTop = 1, P_virtualBottom = 2\<rparr>) \<and>
      (full \<longrightarrow> isopen))"
  using isFull_implies_isOpen[OF P_new_1 P_run_1, of 0 0] P_new_1 P_run_1 by simp

text \<open>
  \<^bold>\<open>C4\<close> (\<^verbatim>\<open>percolates\<close> is monotone). Let \<open>s\<close> be a reachable state in which \<^verbatim>\<open>percolates()\<close>
  returns true. Then after any further calls \<open>cs'\<close> on the grid (one \<^verbatim>\<open>open(row, col)\<close> is the
  case \<open>cs' = [Open row col]\<close>; further queries and rejected calls are allowed as well)
  \<^verbatim>\<open>percolates()\<close> returns true again.
\<close>

theorem percolates_monotone:
  assumes "P_new n = Some (Inr s0)" and "P_run s0 cs = Some (outs, s)"
    and "P_percolates s = Some (Inr True, s1)"
  shows "\<exists>outs' s' s''. P_run s cs' = Some (outs', s') \<and> P_percolates s' = Some (Inr True, s'')"
proof -
  let ?K = "{(nat (n * n), nat (n * n + 1))}"
  from reach_sim[OF assms(1,2)] obtain q where sm: "sim n {} {} s q" by blast
  from sim_percolates[OF sm] assms(3)
  have c: "QF_id q ! nat (n * n) = QF_id q ! nat (n * n + 1)" by auto
  from sm have "length (QF_id q) = nat (n * n + 2)" by (simp add: sim_def uf_sim_def)
  with c sm nn_bounds(1,2)[of n] have "sim n ?K {} s q" by (auto simp: sim_def)
  from sim_run[OF this, of cs'] obtain outs' s' q' where
    r: "P_run s cs' = Some (outs', s')" "sim n ?K {} s' q'" by blast
  from r(2) have "QF_id q' ! nat (n * n) = QF_id q' ! nat (n * n + 1)" by (auto simp: sim_def)
  with sim_percolates[OF r(2)] r(1) show ?thesis by auto
qed

theorem percolates_monotone_witness:
  "P_new 2 = Some (Inr \<lparr>P_n = 2, P_grid = [False, False, False, False],
      P_parent = [0, 1, 2, 3, 4, 5], P_size = [1, 1, 1, 1, 1, 1],
      P_openSitesCount = 0, P_virtualTop = 4, P_virtualBottom = 5\<rparr>) \<and>
   P_run \<lparr>P_n = 2, P_grid = [False, False, False, False],
      P_parent = [0, 1, 2, 3, 4, 5], P_size = [1, 1, 1, 1, 1, 1],
      P_openSitesCount = 0, P_virtualTop = 4, P_virtualBottom = 5\<rparr> [Open 0 0, Open 1 0] =
     Some ([Inr VUnit, Inr VUnit],
       \<lparr>P_n = 2, P_grid = [True, False, True, False],
        P_parent = [2, 1, 2, 3, 0, 2], P_size = [2, 1, 4, 1, 1, 1],
        P_openSitesCount = 2, P_virtualTop = 4, P_virtualBottom = 5\<rparr>) \<and>
   P_percolates \<lparr>P_n = 2, P_grid = [True, False, True, False],
        P_parent = [2, 1, 2, 3, 0, 2], P_size = [2, 1, 4, 1, 1, 1],
        P_openSitesCount = 2, P_virtualTop = 4, P_virtualBottom = 5\<rparr> =
     Some (Inr True, \<lparr>P_n = 2, P_grid = [True, False, True, False],
        P_parent = [2, 1, 2, 3, 2, 2], P_size = [2, 1, 4, 1, 1, 1],
        P_openSitesCount = 2, P_virtualTop = 4, P_virtualBottom = 5\<rparr>) \<and>
   (\<exists>outs' s' s''.
      P_run \<lparr>P_n = 2, P_grid = [True, False, True, False],
        P_parent = [2, 1, 2, 3, 0, 2], P_size = [2, 1, 4, 1, 1, 1],
        P_openSitesCount = 2, P_virtualTop = 4, P_virtualBottom = 5\<rparr> [Open 1 1] =
        Some (outs', s') \<and>
      P_percolates s' = Some (Inr True, s''))"
proof -
  have 0: "P_new 2 = Some (Inr \<lparr>P_n = 2, P_grid = [False, False, False, False],
      P_parent = [0, 1, 2, 3, 4, 5], P_size = [1, 1, 1, 1, 1, 1],
      P_openSitesCount = 0, P_virtualTop = 4, P_virtualBottom = 5\<rparr>)"
    by code_simp
  have 1: "P_run \<lparr>P_n = 2, P_grid = [False, False, False, False],
      P_parent = [0, 1, 2, 3, 4, 5], P_size = [1, 1, 1, 1, 1, 1],
      P_openSitesCount = 0, P_virtualTop = 4, P_virtualBottom = 5\<rparr> [Open 0 0, Open 1 0] =
     Some ([Inr VUnit, Inr VUnit],
       \<lparr>P_n = 2, P_grid = [True, False, True, False],
        P_parent = [2, 1, 2, 3, 0, 2], P_size = [2, 1, 4, 1, 1, 1],
        P_openSitesCount = 2, P_virtualTop = 4, P_virtualBottom = 5\<rparr>)"
    by (simp add: P_eval)
  have 2: "P_percolates \<lparr>P_n = 2, P_grid = [True, False, True, False],
        P_parent = [2, 1, 2, 3, 0, 2], P_size = [2, 1, 4, 1, 1, 1],
        P_openSitesCount = 2, P_virtualTop = 4, P_virtualBottom = 5\<rparr> =
     Some (Inr True, \<lparr>P_n = 2, P_grid = [True, False, True, False],
        P_parent = [2, 1, 2, 3, 2, 2], P_size = [2, 1, 4, 1, 1, 1],
        P_openSitesCount = 2, P_virtualTop = 4, P_virtualBottom = 5\<rparr>)"
    by (simp add: P_eval)
  from percolates_monotone[OF 0 1 2, of "[Open 1 1]"] 0 1 2
  show ?thesis by simp
qed

text \<open>
  \<^bold>\<open>C5\<close> (\<^verbatim>\<open>open\<close> is idempotent). In every reachable state and for all \<open>(row, col)\<close>,
  \<^verbatim>\<open>open(row, col)\<close> returns, and a second \<^verbatim>\<open>open(row, col)\<close> right after it gives the same
  outcome and leaves the object exactly as the first call left it: every vector and counter
  is the same, so \<^verbatim>\<open>isOpen\<close>, \<^verbatim>\<open>isFull\<close> and \<^verbatim>\<open>numberOfOpenSites\<close> answer the same for all sites
  after two calls as after one.
\<close>

theorem open_idempotent:
  assumes "P_new n = Some (Inr s0)" and "P_run s0 cs = Some (outs, s)"
  shows "\<exists>out s1. P_open s row col = Some (out, s1) \<and> P_open s1 row col = Some (out, s1) \<and>
           (\<forall>c. \<forall>out2 s2. P_open s1 row col = Some (out2, s2) \<longrightarrow> P_call s2 c = P_call s1 c)"
proof (cases "in_grid n row col")
  case True
  let ?i = "nat (row * n + col)"
  from reach_sim[OF assms] obtain q where sm: "sim n {} {} s q" by blast
  from sim_open_in[OF sm True] obtain a s1 q1 where
    o: "P_open s row col = Some (Inr a, s1)" "sim n {} {?i} s1 q1"
    unfolding both_ok_def by blast
  from o(2) have n: "P_n s1 = n" and g: "length (P_grid s1) = nat (n * n)" "P_grid s1 ! ?i"
    by (auto simp: sim_def)
  have "P_open s1 row col = Some (Inr (), s1)"
    using g(2)
    by (simp add: P_open_def P_validate_in[OF n True] P_isOpen_in[OF n g(1) True] seq_return)
  with o(1) show ?thesis by simp
next
  case False
  from reach_sim[OF assms] obtain q where sm: "sim n {} {} s q" by blast
  then have "P_n s = n" by (simp add: sim_def)
  from P_open_out[OF this False] show ?thesis by simp
qed

theorem open_idempotent_witness:
  "P_new 1 = Some (Inr \<lparr>P_n = 1, P_grid = [False], P_parent = [0, 1, 2], P_size = [1, 1, 1],
     P_openSitesCount = 0, P_virtualTop = 1, P_virtualBottom = 2\<rparr>) \<and>
   P_run \<lparr>P_n = 1, P_grid = [False], P_parent = [0, 1, 2], P_size = [1, 1, 1],
     P_openSitesCount = 0, P_virtualTop = 1, P_virtualBottom = 2\<rparr> [] =
     Some ([], \<lparr>P_n = 1, P_grid = [False], P_parent = [0, 1, 2], P_size = [1, 1, 1],
     P_openSitesCount = 0, P_virtualTop = 1, P_virtualBottom = 2\<rparr>) \<and>
   (\<exists>out s1.
      P_open \<lparr>P_n = 1, P_grid = [False], P_parent = [0, 1, 2], P_size = [1, 1, 1],
        P_openSitesCount = 0, P_virtualTop = 1, P_virtualBottom = 2\<rparr> 0 0 = Some (out, s1) \<and>
      P_open s1 0 0 = Some (out, s1) \<and>
      (\<forall>c. \<forall>out2 s2. P_open s1 0 0 = Some (out2, s2) \<longrightarrow> P_call s2 c = P_call s1 c))"
  using open_idempotent[OF P_new_1, of "[]" "[]" _ 0 0] P_new_1 by simp

text \<open>
  \<^bold>\<open>C7\<close> (coordinates out of range). In every reachable state of a grid of side \<open>n\<close> and for
  all integers \<open>row\<close> and \<open>col\<close>: if \<open>row\<close> or \<open>col\<close> lies outside \<open>[0, n)\<close>, each of \<^verbatim>\<open>open\<close>,
  \<^verbatim>\<open>isOpen\<close> and \<^verbatim>\<open>isFull\<close> throws \<^verbatim>\<open>std::invalid_argument("Index out of bounds")\<close> and leaves
  the object exactly as it was; otherwise each of them returns without an exception.
\<close>

theorem invalid_coordinate:
  assumes "P_new n = Some (Inr s0)" and "P_run s0 cs = Some (outs, s)"
  shows "if row < 0 \<or> row \<ge> n \<or> col < 0 \<or> col \<ge> n
         then P_open s row col = Some (Inl (invalid_argument ''Index out of bounds''), s) \<and>
              P_isOpen s row col = Some (Inl (invalid_argument ''Index out of bounds''), s) \<and>
              P_isFull s row col = Some (Inl (invalid_argument ''Index out of bounds''), s)
         else (\<exists>s'. P_open s row col = Some (Inr (), s')) \<and>
              (\<exists>b. P_isOpen s row col = Some (Inr b, s)) \<and>
              (\<exists>b s'. P_isFull s row col = Some (Inr b, s'))"
proof -
  from reach_sim[OF assms] obtain q where sm: "sim n {} {} s q" by blast
  then have n: "P_n s = n" and g: "length (P_grid s) = nat (n * n)" by (auto simp: sim_def)
  show ?thesis
  proof (cases "in_grid n row col")
    case True
    from sim_open_in[OF sm True] have "\<exists>s'. P_open s row col = Some (Inr (), s')"
      unfolding both_ok_def by auto
    moreover from sim_isFull_in[OF sm True] have "\<exists>b s'. P_isFull s row col = Some (Inr b, s')"
      by blast
    ultimately show ?thesis
      using True P_isOpen_in[OF n g True] by (auto simp: in_grid_def)
  next
    case False
    from P_open_out[OF n False] P_isOpen_out[OF n False] P_isFull_out[OF n False] False
    show ?thesis by (auto simp: in_grid_def)
  qed
qed

theorem invalid_coordinate_witness:
  "P_new 1 = Some (Inr \<lparr>P_n = 1, P_grid = [False], P_parent = [0, 1, 2], P_size = [1, 1, 1],
     P_openSitesCount = 0, P_virtualTop = 1, P_virtualBottom = 2\<rparr>) \<and>
   P_run \<lparr>P_n = 1, P_grid = [False], P_parent = [0, 1, 2], P_size = [1, 1, 1],
     P_openSitesCount = 0, P_virtualTop = 1, P_virtualBottom = 2\<rparr> [Open 0 0] =
     Some ([Inr VUnit], \<lparr>P_n = 1, P_grid = [True], P_parent = [0, 0, 0], P_size = [3, 1, 1],
       P_openSitesCount = 1, P_virtualTop = 1, P_virtualBottom = 2\<rparr>) \<and>
   P_open \<lparr>P_n = 1, P_grid = [True], P_parent = [0, 0, 0], P_size = [3, 1, 1],
       P_openSitesCount = 1, P_virtualTop = 1, P_virtualBottom = 2\<rparr> (- 1) 0 =
     Some (Inl (invalid_argument ''Index out of bounds''),
       \<lparr>P_n = 1, P_grid = [True], P_parent = [0, 0, 0], P_size = [3, 1, 1],
       P_openSitesCount = 1, P_virtualTop = 1, P_virtualBottom = 2\<rparr>) \<and>
   P_isFull \<lparr>P_n = 1, P_grid = [True], P_parent = [0, 0, 0], P_size = [3, 1, 1],
       P_openSitesCount = 1, P_virtualTop = 1, P_virtualBottom = 2\<rparr> 0 1 =
     Some (Inl (invalid_argument ''Index out of bounds''),
       \<lparr>P_n = 1, P_grid = [True], P_parent = [0, 0, 0], P_size = [3, 1, 1],
       P_openSitesCount = 1, P_virtualTop = 1, P_virtualBottom = 2\<rparr>) \<and>
   (\<exists>b s'. P_isFull \<lparr>P_n = 1, P_grid = [True], P_parent = [0, 0, 0], P_size = [3, 1, 1],
       P_openSitesCount = 1, P_virtualTop = 1, P_virtualBottom = 2\<rparr> 0 0 = Some (Inr b, s'))"
  using invalid_coordinate[OF P_new_1 P_run_1, of "- 1" 0]
        invalid_coordinate[OF P_new_1 P_run_1, of 0 1]
        invalid_coordinate[OF P_new_1 P_run_1, of 0 0] P_new_1 P_run_1
  by simp

text \<open>
  \<^bold>\<open>C10\<close> (queries are observationally pure). In every reachable state each of \<^verbatim>\<open>isOpen\<close>,
  \<^verbatim>\<open>isFull\<close>, \<^verbatim>\<open>percolates\<close> and \<^verbatim>\<open>numberOfOpenSites\<close>, with any arguments, returns; it changes
  nothing but the \<^verbatim>\<open>parent\<close> vector; every index keeps its root, so the same indices share a
  root afterwards as before; and whatever calls \<open>cs'\<close> follow, they give back the same as
  they would have, had the query not been made.
\<close>

theorem queries_pure:
  assumes "P_new n = Some (Inr s0)" and "P_run s0 cs = Some (outs, s)" and "is_query c"
  shows "\<exists>out s1. P_call s c = Some (out, s1) \<and>
           s1 = s\<lparr>P_parent := P_parent s1\<rparr> \<and>
           length (P_parent s1) = length (P_parent s) \<and>
           root_of (P_parent s1) = root_of (P_parent s) \<and>
           same_root (P_parent s1) = same_root (P_parent s) \<and>
           (\<forall>cs'. \<exists>outs' s2 s3. P_run s1 cs' = Some (outs', s2) \<and> P_run s cs' = Some (outs', s3))"
proof -
  from reach_sim[OF assms(1,2)] obtain q where sm: "sim n {} {} s q" by blast
  from sim_query[OF assms(3) sm] obtain out s1 where
    1: "P_call s c = Some (out, s1)" "sim n {} {} s1 q"
       "root_of (P_parent s1) = root_of (P_parent s)" "s1 = s\<lparr>P_parent := P_parent s1\<rparr>"
    by blast
  have "\<exists>outs' s2 s3. P_run s1 cs' = Some (outs', s2) \<and> P_run s cs' = Some (outs', s3)" for cs'
    using sim_run[OF sm, of cs'] sim_run[OF 1(2), of cs'] by auto
  moreover from sm 1(2) have "length (P_parent s1) = length (P_parent s)" by (simp add: sim_def)
  ultimately show ?thesis using 1 same_root_cong[OF 1(3)] by blast
qed

theorem queries_pure_witness:
  "P_new 2 = Some (Inr \<lparr>P_n = 2, P_grid = [False, False, False, False],
      P_parent = [0, 1, 2, 3, 4, 5], P_size = [1, 1, 1, 1, 1, 1],
      P_openSitesCount = 0, P_virtualTop = 4, P_virtualBottom = 5\<rparr>) \<and>
   P_run \<lparr>P_n = 2, P_grid = [False, False, False, False],
      P_parent = [0, 1, 2, 3, 4, 5], P_size = [1, 1, 1, 1, 1, 1],
      P_openSitesCount = 0, P_virtualTop = 4, P_virtualBottom = 5\<rparr> [Open 0 0, Open 1 0] =
     Some ([Inr VUnit, Inr VUnit],
       \<lparr>P_n = 2, P_grid = [True, False, True, False],
        P_parent = [2, 1, 2, 3, 0, 2], P_size = [2, 1, 4, 1, 1, 1],
        P_openSitesCount = 2, P_virtualTop = 4, P_virtualBottom = 5\<rparr>) \<and>
   is_query Percolates \<and>
   P_call \<lparr>P_n = 2, P_grid = [True, False, True, False],
        P_parent = [2, 1, 2, 3, 0, 2], P_size = [2, 1, 4, 1, 1, 1],
        P_openSitesCount = 2, P_virtualTop = 4, P_virtualBottom = 5\<rparr> Percolates =
     Some (Inr (VBool True), \<lparr>P_n = 2, P_grid = [True, False, True, False],
        P_parent = [2, 1, 2, 3, 2, 2], P_size = [2, 1, 4, 1, 1, 1],
        P_openSitesCount = 2, P_virtualTop = 4, P_virtualBottom = 5\<rparr>) \<and>
   root_of [2, 1, 2, 3, 2, 2] = root_of [2, 1, 2, 3, 0, 2] \<and>
   (\<forall>cs'. \<exists>outs' s2 s3.
      P_run \<lparr>P_n = 2, P_grid = [True, False, True, False],
        P_parent = [2, 1, 2, 3, 2, 2], P_size = [2, 1, 4, 1, 1, 1],
        P_openSitesCount = 2, P_virtualTop = 4, P_virtualBottom = 5\<rparr> cs' = Some (outs', s2) \<and>
      P_run \<lparr>P_n = 2, P_grid = [True, False, True, False],
        P_parent = [2, 1, 2, 3, 0, 2], P_size = [2, 1, 4, 1, 1, 1],
        P_openSitesCount = 2, P_virtualTop = 4, P_virtualBottom = 5\<rparr> cs' = Some (outs', s3))"
proof -
  have 0: "P_new 2 = Some (Inr \<lparr>P_n = 2, P_grid = [False, False, False, False],
      P_parent = [0, 1, 2, 3, 4, 5], P_size = [1, 1, 1, 1, 1, 1],
      P_openSitesCount = 0, P_virtualTop = 4, P_virtualBottom = 5\<rparr>)"
    by code_simp
  have 1: "P_run \<lparr>P_n = 2, P_grid = [False, False, False, False],
      P_parent = [0, 1, 2, 3, 4, 5], P_size = [1, 1, 1, 1, 1, 1],
      P_openSitesCount = 0, P_virtualTop = 4, P_virtualBottom = 5\<rparr> [Open 0 0, Open 1 0] =
     Some ([Inr VUnit, Inr VUnit],
       \<lparr>P_n = 2, P_grid = [True, False, True, False],
        P_parent = [2, 1, 2, 3, 0, 2], P_size = [2, 1, 4, 1, 1, 1],
        P_openSitesCount = 2, P_virtualTop = 4, P_virtualBottom = 5\<rparr>)"
    by (simp add: P_eval)
  have 2: "P_call \<lparr>P_n = 2, P_grid = [True, False, True, False],
        P_parent = [2, 1, 2, 3, 0, 2], P_size = [2, 1, 4, 1, 1, 1],
        P_openSitesCount = 2, P_virtualTop = 4, P_virtualBottom = 5\<rparr> Percolates =
     Some (Inr (VBool True), \<lparr>P_n = 2, P_grid = [True, False, True, False],
        P_parent = [2, 1, 2, 3, 2, 2], P_size = [2, 1, 4, 1, 1, 1],
        P_openSitesCount = 2, P_virtualTop = 4, P_virtualBottom = 5\<rparr>)"
    by (simp add: P_eval)
  from queries_pure[OF 0 1, of Percolates] 0 1 2
  show ?thesis by simp
qed

lemma P_new_3:
  "P_new 3 = Some (Inr \<lparr>P_n = 3,
     P_grid = [False, False, False, False, False, False, False, False, False],
     P_parent = [0, 1, 2, 3, 4, 5, 6, 7, 8, 9, 10],
     P_size = [1, 1, 1, 1, 1, 1, 1, 1, 1, 1, 1], P_openSitesCount = 0,
     P_virtualTop = 9, P_virtualBottom = 10\<rparr>)"
  by code_simp

lemma spec_full_open: "spec_full n g row col \<Longrightarrow> in_grid n row col \<and> g ! nat (row * n + col)"
  by (induction rule: spec_full.induct) auto

text \<open>
  \<^bold>\<open>C2\<close> (\<^verbatim>\<open>isFull\<close> against the glossary's full site). The claim fails on the code once the grid
  percolates. On a 3-by-3 grid, open (0,0), (1,0), (2,0) (the left column, which percolates)
  and then (2,2). Site (2,2) is in the bottom row, so \<^verbatim>\<open>open\<close> unions it with the virtual bottom
  node, which is already in the component of the virtual top node. \<^verbatim>\<open>isFull(2, 2)\<close> returns
  true, although both neighbours of (2,2) inside the grid, (1,2) and (2,1), are blocked and
  (2,2) is not in row 0: no chain of open sites leads from it to the top.
\<close>

theorem isFull_backwash:
  "\<exists>s0 s s'.
     P_new 3 = Some (Inr s0) \<and>
     P_run s0 [Open 0 0, Open 1 0, Open 2 0, Open 2 2] =
       Some ([Inr VUnit, Inr VUnit, Inr VUnit, Inr VUnit], s) \<and>
     P_grid s = [True, False, False, True, False, False, True, False, True] \<and>
     P_isFull s 2 2 = Some (Inr True, s') \<and>
     \<not> spec_full 3 (P_grid s) 2 2"
proof -
  let ?init = "\<lparr>P_n = 3,
     P_grid = [False, False, False, False, False, False, False, False, False],
     P_parent = [0, 1, 2, 3, 4, 5, 6, 7, 8, 9, 10],
     P_size = [1, 1, 1, 1, 1, 1, 1, 1, 1, 1, 1], P_openSitesCount = 0,
     P_virtualTop = 9, P_virtualBottom = 10\<rparr>"
  let ?g = "[True, False, False, True, False, False, True, False, True]"
  let ?fin = "\<lparr>P_n = 3, P_grid = ?g,
     P_parent = [0, 1, 2, 0, 4, 5, 0, 7, 0, 0, 0],
     P_size = [6, 1, 1, 1, 1, 1, 2, 1, 1, 1, 1], P_openSitesCount = 4,
     P_virtualTop = 9, P_virtualBottom = 10\<rparr>"
  have run: "P_run ?init [Open 0 0, Open 1 0, Open 2 0, Open 2 2] =
       Some ([Inr VUnit, Inr VUnit, Inr VUnit, Inr VUnit], ?fin)"
    by (simp add: P_eval)
  have full: "P_isFull ?fin 2 2 = Some (Inr True, ?fin)"
    by (simp add: P_eval)
  have nf: "\<not> spec_full 3 ?g 2 2"
  proof
    assume "spec_full 3 ?g 2 2"
    then show False
    proof (cases rule: spec_full.cases)
      case top
      then show False by simp
    next
      case (step row col)
      from spec_full_open[OF step(1)] have o: "in_grid 3 row col" "?g ! nat (row * 3 + col)"
        by simp_all
      from o(1) step(4) have "(row = 1 \<and> col = 2) \<or> (row = 2 \<and> col = 1)"
        by (auto simp: in_grid_def)
      with o(2) show False by auto
    qed
  qed
  have "P_new 3 = Some (Inr ?init) \<and>
     P_run ?init [Open 0 0, Open 1 0, Open 2 0, Open 2 2] =
       Some ([Inr VUnit, Inr VUnit, Inr VUnit, Inr VUnit], ?fin) \<and>
     P_grid ?fin = ?g \<and> P_isFull ?fin 2 2 = Some (Inr True, ?fin) \<and>
     \<not> spec_full 3 (P_grid ?fin) 2 2"
    using nf by (simp only: P_new_3 run full Percolation.simps simp_thms)
  then show ?thesis by blast
qed

text \<open>
  \<^bold>\<open>C6\<close> (\<^verbatim>\<open>unionSites\<close>), as amended. Let the vectors satisfy the invariant and let \<open>x\<close>, \<open>y\<close>
  be indices. The two \<^verbatim>\<open>find\<close> calls return the roots \<open>rx\<close> of \<open>x\<close> and \<open>ry\<close> of \<open>y\<close> and leave a
  compressed \<^verbatim>\<open>parent\<close> vector \<open>p2\<close> in which every index has the root it had. Then
  \<^item> if \<open>rx = ry\<close>, \<^verbatim>\<open>unionSites\<close> does nothing beyond that path compression: \<^verbatim>\<open>size\<close> is
    untouched, \<^verbatim>\<open>parent\<close> is \<open>p2\<close>, and every index keeps its root (the \<^verbatim>\<open>parent\<close> vector itself
    may change, see the counterexample below);
  \<^item> if the component of \<open>rx\<close> has fewer elements than that of \<open>ry\<close>, \<open>rx\<close> gets the parent
    \<open>ry\<close>, the size at \<open>ry\<close> grows by the size at \<open>rx\<close>, and the indices that had root \<open>rx\<close>
    now have root \<open>ry\<close>, all others keeping theirs;
  \<^item> otherwise (including a tie) \<open>ry\<close> gets the parent \<open>rx\<close>, the size at \<open>rx\<close> grows by the
    size at \<open>ry\<close>, and the indices that had root \<open>ry\<close> now have root \<open>rx\<close>;
  and in every case the invariant holds afterwards. (The invariant holds in every state a
  client can reach: lemma \<open>reachable_uf_inv\<close>.)
\<close>

theorem unionSites_spec:
  assumes inv: "uf_inv (P_parent s) (P_size s)"
    and x: "x < length (P_parent s)" and y: "y < length (P_parent s)"
  shows "\<exists>rx ry p1 p2 s'.
     P_find (P_parent s) x = Some (rx, p1) \<and> P_find p1 y = Some (ry, p2) \<and>
     root_of (P_parent s) x rx \<and> root_of (P_parent s) y ry \<and>
     root_of p2 = root_of (P_parent s) \<and>
     P_unionSites s x y = Some s' \<and> uf_inv (P_parent s') (P_size s') \<and>
     (if rx = ry then s' = s\<lparr>P_parent := p2\<rparr>
      else if card {z. root_of (P_parent s) z rx} < card {z. root_of (P_parent s) z ry}
      then s' = s\<lparr>P_parent := p2[rx := ry],
                   P_size := (P_size s)[ry := P_size s ! ry + P_size s ! rx]\<rparr> \<and>
           (\<forall>z t. root_of (P_parent s') z t \<longleftrightarrow>
                    (\<exists>u. root_of (P_parent s) z u \<and> t = (if u = rx then ry else u)))
      else s' = s\<lparr>P_parent := p2[ry := rx],
                   P_size := (P_size s)[rx := P_size s ! rx + P_size s ! ry]\<rparr> \<and>
           (\<forall>z t. root_of (P_parent s') z t \<longleftrightarrow>
                    (\<exists>u. root_of (P_parent s) z u \<and> t = (if u = ry then rx else u))))"
proof -
  let ?p = "P_parent s" and ?sz = "P_size s"
  from inv have f: "forest ?p" and len: "length ?sz = length ?p"
    and sz: "\<And>r. r < length ?p \<Longrightarrow> ?p ! r = r \<Longrightarrow> ?sz ! r = card {z. root_of ?p z r}"
    by (simp_all add: uf_inv_def)
  from two_finds[OF f x y] obtain rx ry p1 p2 where
    fs: "P_find ?p x = Some (rx, p1)" "P_find p1 y = Some (ry, p2)"
        "root_of ?p x rx" "root_of ?p y ry" "length p2 = length ?p" "root_of p2 = root_of ?p"
    by blast
  have inv2: "uf_inv p2 ?sz" using inv uf_inv_cong[OF fs(6,5)] by simp
  from root_of_is_root[OF fs(3)] root_of_is_root[OF fs(4)]
  have rt: "rx < length ?p" "?p ! rx = rx" "ry < length ?p" "?p ! ry = ry" by simp_all
  then have rt2: "rx < length p2" "p2 ! rx = rx" "ry < length p2" "p2 ! ry = ry"
    using fs(5,6) is_root_iff[of rx p2] is_root_iff[of ry p2] is_root_iff[of rx ?p]
          is_root_iff[of ry ?p] by simp_all
  have cmp: "?sz ! rx < ?sz ! ry \<longleftrightarrow>
               card {z. root_of ?p z rx} < card {z. root_of ?p z ry}"
    using sz[OF rt(1,2)] sz[OF rt(3,4)] by simp
  show ?thesis
  proof (cases "rx = ry")
    case True
    then have "P_unionSites s x y = Some (s\<lparr>P_parent := p2\<rparr>)"
      using fs(1,2) by (simp add: P_unionSites_def)
    with True fs inv2 show ?thesis by simp
  next
    case ne: False
    show ?thesis
    proof (cases "?sz ! rx < ?sz ! ry")
      case True
      let ?s' = "s\<lparr>P_parent := p2[rx := ry], P_size := ?sz[ry := ?sz ! ry + ?sz ! rx]\<rparr>"
      have "P_unionSites s x y = Some ?s'"
        using fs(1,2) ne True rt rt2 len by (simp add: P_unionSites_def rd_def wr_def)
      moreover note uf_inv_link[OF inv2 rt2(1,2) rt2(3,4) ne]
      ultimately show ?thesis
        using fs ne True cmp by simp
    next
      case False
      let ?s' = "s\<lparr>P_parent := p2[ry := rx], P_size := ?sz[rx := ?sz ! rx + ?sz ! ry]\<rparr>"
      have "P_unionSites s x y = Some ?s'"
        using fs(1,2) ne False rt rt2 len by (simp add: P_unionSites_def rd_def wr_def)
      moreover note uf_inv_link[OF inv2 rt2(3,4) rt2(1,2) ne[symmetric]]
      ultimately show ?thesis
        using fs ne False cmp by simp
    qed
  qed
qed

theorem unionSites_spec_witness:
  "uf_inv [0, 1, 2] [1, 1, 1] \<and> (0::nat) < length [0, 1, 2 :: nat] \<and>
   (1::nat) < length [0, 1, 2 :: nat] \<and>
   P_unionSites \<lparr>P_n = 1, P_grid = [True], P_parent = [0, 1, 2], P_size = [1, 1, 1],
       P_openSitesCount = 1, P_virtualTop = 1, P_virtualBottom = 2\<rparr> 0 1 =
     Some \<lparr>P_n = 1, P_grid = [True], P_parent = [0, 0, 2], P_size = [2, 1, 1],
       P_openSitesCount = 1, P_virtualTop = 1, P_virtualBottom = 2\<rparr> \<and>
   uf_inv [0, 0, 2] [2, 1, 1]"
proof -
  let ?before = "\<lparr>P_n = 1, P_grid = [True], P_parent = [0, 1, 2], P_size = [1, 1, 1],
       P_openSitesCount = 1, P_virtualTop = 1, P_virtualBottom = 2\<rparr>"
  have "replicate 3 (1::nat) = [1, 1, 1]" by code_simp
  with uf_inv_init[of 3] have i: "uf_inv [0, 1, 2] [1, 1, 1]" by (simp add: upt_3)
  have u: "P_unionSites ?before 0 1 =
     Some \<lparr>P_n = 1, P_grid = [True], P_parent = [0, 0, 2], P_size = [2, 1, 1],
       P_openSitesCount = 1, P_virtualTop = 1, P_virtualBottom = 2\<rparr>"
    by (simp add: P_eval)
  from unionSites_spec[of ?before 0 1] i u show ?thesis by auto
qed

text \<open>
  \<^bold>\<open>C6\<close>, the claim as it was stated. Its first part says that \<^verbatim>\<open>unionSites\<close> is a no-op when
  \<open>x\<close> and \<open>y\<close> share a root. On a 3-by-3 grid, after \<^verbatim>\<open>open(2,0)\<close>, \<^verbatim>\<open>open(1,0)\<close>, \<^verbatim>\<open>open(0,1)\<close>,
  \<^verbatim>\<open>open(0,2)\<close>, \<^verbatim>\<open>open(0,0)\<close>, the indices 0 and 3 both have root 1, and \<^verbatim>\<open>unionSites(0, 3)\<close>
  changes the object all the same: its second \<^verbatim>\<open>find\<close> compresses the path of 3 and sets
  \<^verbatim>\<open>parent[3]\<close> from 6 to 1.
\<close>

theorem unionSites_same_root_counterexample:
  "P_new 3 = Some (Inr \<lparr>P_n = 3,
     P_grid = [False, False, False, False, False, False, False, False, False],
     P_parent = [0, 1, 2, 3, 4, 5, 6, 7, 8, 9, 10],
     P_size = [1, 1, 1, 1, 1, 1, 1, 1, 1, 1, 1], P_openSitesCount = 0,
     P_virtualTop = 9, P_virtualBottom = 10\<rparr>) \<and>
   P_run \<lparr>P_n = 3,
     P_grid = [False, False, False, False, False, False, False, False, False],
     P_parent = [0, 1, 2, 3, 4, 5, 6, 7, 8, 9, 10],
     P_size = [1, 1, 1, 1, 1, 1, 1, 1, 1, 1, 1], P_openSitesCount = 0,
     P_virtualTop = 9, P_virtualBottom = 10\<rparr>
     [Open 2 0, Open 1 0, Open 0 1, Open 0 2, Open 0 0] =
     Some ([Inr VUnit, Inr VUnit, Inr VUnit, Inr VUnit, Inr VUnit],
       \<lparr>P_n = 3,
        P_grid = [True, True, True, True, False, False, True, False, False],
        P_parent = [1, 1, 1, 6, 4, 5, 1, 7, 8, 1, 6],
        P_size = [1, 7, 1, 1, 1, 1, 3, 1, 1, 1, 1], P_openSitesCount = 5,
        P_virtualTop = 9, P_virtualBottom = 10\<rparr>) \<and>
   P_find [1, 1, 1, 6, 4, 5, 1, 7, 8, 1, 6] 0 = Some (1, [1, 1, 1, 6, 4, 5, 1, 7, 8, 1, 6]) \<and>
   P_find [1, 1, 1, 6, 4, 5, 1, 7, 8, 1, 6] 3 = Some (1, [1, 1, 1, 1, 4, 5, 1, 7, 8, 1, 6]) \<and>
   P_unionSites \<lparr>P_n = 3,
        P_grid = [True, True, True, True, False, False, True, False, False],
        P_parent = [1, 1, 1, 6, 4, 5, 1, 7, 8, 1, 6],
        P_size = [1, 7, 1, 1, 1, 1, 3, 1, 1, 1, 1], P_openSitesCount = 5,
        P_virtualTop = 9, P_virtualBottom = 10\<rparr> 0 3 =
     Some \<lparr>P_n = 3,
        P_grid = [True, True, True, True, False, False, True, False, False],
        P_parent = [1, 1, 1, 1, 4, 5, 1, 7, 8, 1, 6],
        P_size = [1, 7, 1, 1, 1, 1, 3, 1, 1, 1, 1], P_openSitesCount = 5,
        P_virtualTop = 9, P_virtualBottom = 10\<rparr> \<and>
   P_unionSites \<lparr>P_n = 3,
        P_grid = [True, True, True, True, False, False, True, False, False],
        P_parent = [1, 1, 1, 6, 4, 5, 1, 7, 8, 1, 6],
        P_size = [1, 7, 1, 1, 1, 1, 3, 1, 1, 1, 1], P_openSitesCount = 5,
        P_virtualTop = 9, P_virtualBottom = 10\<rparr> 0 3 \<noteq>
     Some \<lparr>P_n = 3,
        P_grid = [True, True, True, True, False, False, True, False, False],
        P_parent = [1, 1, 1, 6, 4, 5, 1, 7, 8, 1, 6],
        P_size = [1, 7, 1, 1, 1, 1, 3, 1, 1, 1, 1], P_openSitesCount = 5,
        P_virtualTop = 9, P_virtualBottom = 10\<rparr>"
proof -
  have run: "P_run \<lparr>P_n = 3,
     P_grid = [False, False, False, False, False, False, False, False, False],
     P_parent = [0, 1, 2, 3, 4, 5, 6, 7, 8, 9, 10],
     P_size = [1, 1, 1, 1, 1, 1, 1, 1, 1, 1, 1], P_openSitesCount = 0,
     P_virtualTop = 9, P_virtualBottom = 10\<rparr>
     [Open 2 0, Open 1 0, Open 0 1, Open 0 2, Open 0 0] =
     Some ([Inr VUnit, Inr VUnit, Inr VUnit, Inr VUnit, Inr VUnit],
       \<lparr>P_n = 3,
        P_grid = [True, True, True, True, False, False, True, False, False],
        P_parent = [1, 1, 1, 6, 4, 5, 1, 7, 8, 1, 6],
        P_size = [1, 7, 1, 1, 1, 1, 3, 1, 1, 1, 1], P_openSitesCount = 5,
        P_virtualTop = 9, P_virtualBottom = 10\<rparr>)"
    by (simp add: P_eval)
  have f0: "P_find [1, 1, 1, 6, 4, 5, 1, 7, 8, 1, 6] 0 = Some (1, [1, 1, 1, 6, 4, 5, 1, 7, 8, 1, 6])"
    by (simp add: P_eval)
  have f3: "P_find [1, 1, 1, 6, 4, 5, 1, 7, 8, 1, 6] 3 = Some (1, [1, 1, 1, 1, 4, 5, 1, 7, 8, 1, 6])"
    by (simp add: P_eval)
  have u: "P_unionSites \<lparr>P_n = 3,
        P_grid = [True, True, True, True, False, False, True, False, False],
        P_parent = [1, 1, 1, 6, 4, 5, 1, 7, 8, 1, 6],
        P_size = [1, 7, 1, 1, 1, 1, 3, 1, 1, 1, 1], P_openSitesCount = 5,
        P_virtualTop = 9, P_virtualBottom = 10\<rparr> 0 3 =
     Some \<lparr>P_n = 3,
        P_grid = [True, True, True, True, False, False, True, False, False],
        P_parent = [1, 1, 1, 1, 4, 5, 1, 7, 8, 1, 6],
        P_size = [1, 7, 1, 1, 1, 1, 3, 1, 1, 1, 1], P_openSitesCount = 5,
        P_virtualTop = 9, P_virtualBottom = 10\<rparr>"
    by (simp add: P_eval)
  show ?thesis
    apply (intro conjI)
         apply (rule P_new_3)
        apply (rule run)
       apply (rule f0)
      apply (rule f3)
     apply (rule u)
    apply (subst u)
    apply simp
    done
qed

section \<open>The estimator\<close>

lemma PS_dis_range:
  assumes "0 < n"
  shows "0 \<le> PS_dis draws n k \<and> PS_dis draws n k < n"
proof -
  from assms have "draws k mod nat n < nat n" by simp
  then have "int (draws k mod nat n) < int (nat n)" by (simp only: of_nat_less_iff)
  with assms show ?thesis by (simp add: PS_dis_def)
qed

lemma PS_pick_ok:
  assumes "PS_pick draws n perc k = Some y" and "sim n {} {} perc q"
  shows "\<exists>row col k'. y = (Inr (row, col), perc, k') \<and> in_grid n row col"
proof -
  have "\<forall>q. sim n {} {} perc q \<longrightarrow> (\<exists>row col k'. y = (Inr (row, col), perc, k') \<and> in_grid n row col)"
  proof (rule PS_pick.raw_induct[where P = "\<lambda>draws n perc k y.
      \<forall>q. sim n {} {} perc q \<longrightarrow> (\<exists>row col k'. y = (Inr (row, col), perc, k') \<and> in_grid n row col)",
      OF _ assms(1)], goal_cases)
    case (1 pick draws n perc k y)
    show ?case
    proof (intro allI impI)
      fix q assume sm: "sim n {} {} perc q"
      let ?row = "PS_dis draws n k" and ?col = "PS_dis draws n (k + 1)"
      from sm have n: "0 < n" "P_n perc = n" and g: "length (P_grid perc) = nat (n * n)"
        by (auto simp: sim_def)
      from PS_dis_range[OF n(1)] have v: "in_grid n ?row ?col" by (simp add: in_grid_def)
      note o = P_isOpen_in[OF n(2) g v]
      show "\<exists>row col k'. y = (Inr (row, col), perc, k') \<and> in_grid n row col"
      proof (cases "P_grid perc ! nat (?row * n + ?col)")
        case True
        with 1(2) o have "pick draws n perc (k + 2) = Some y" by (simp add: Let_def)
        from 1(1)[OF this] sm show ?thesis by blast
      next
        case False
        with 1(2) o v show ?thesis by (auto simp: Let_def)
      qed
    qed
  qed
  with assms(2) show ?thesis by blast
qed

lemma PS_trial_ok:
  assumes "PS_trial draws n perc k = Some y" and "sim n {} {} perc q"
  shows "\<exists>perc' k' q'. y = (Inr (), perc', k') \<and> sim n {} {} perc' q'"
proof -
  have "\<forall>q. sim n {} {} perc q \<longrightarrow> (\<exists>perc' k' q'. y = (Inr (), perc', k') \<and> sim n {} {} perc' q')"
  proof (rule PS_trial.raw_induct[where P = "\<lambda>draws n perc k y.
      \<forall>q. sim n {} {} perc q \<longrightarrow> (\<exists>perc' k' q'. y = (Inr (), perc', k') \<and> sim n {} {} perc' q')",
      OF _ assms(1)], goal_cases)
    case (1 trial draws n perc k y)
    show ?case
    proof (intro allI impI)
      fix q assume sm: "sim n {} {} perc q"
      from sim_percolates[OF sm] obtain b perc1 where
        p: "P_percolates perc = Some (Inr b, perc1)" "sim n {} {} perc1 q" by blast
      show "\<exists>perc' k' q'. y = (Inr (), perc', k') \<and> sim n {} {} perc' q'"
      proof (cases b)
        case True
        with 1(2) p show ?thesis by auto
      next
        case False
        with 1(2) p obtain z where z: "PS_pick draws n perc1 k = Some z"
          by (auto split: option.splits)
        from PS_pick_ok[OF z p(2)] obtain row col k' where
          z': "z = (Inr (row, col), perc1, k')" "in_grid n row col" by blast
        from sim_open_in[OF p(2) z'(2)] obtain perc3 q3 where
          o: "P_open perc1 row col = Some (Inr (), perc3)"
             "sim n {} {nat (row * n + col)} perc3 q3"
          unfolding both_ok_def by auto
        from o(2) have sm3: "sim n {} {} perc3 q3" by (rule sim_mono) auto
        from 1(2) p False z z' o have "trial draws n perc3 k' = Some y" by simp
        from 1(1)[OF this] sm3 show ?thesis by blast
      qed
    qed
  qed
  with assms(2) show ?thesis by blast
qed

lemma PS_threshold_ok:
  assumes "PS_threshold draws n k = Some y" and "0 < n"
  shows "\<exists>th k'. y = (Inr th, k')"
proof -
  from assms(2) have "P_new n = None \<or> (\<exists>perc. P_new n = Some (Inr perc))"
    by (simp add: P_new_def Let_def)
  with assms(1) obtain perc where perc: "P_new n = Some (Inr perc)"
    by (auto simp: PS_threshold_def)
  from P_new_Inr[OF perc] sim_new[of n] perc obtain q where sm: "sim n {} {} perc q" by auto
  from assms(1) perc obtain z where z: "PS_trial draws n perc k = Some z"
    by (auto simp: PS_threshold_def split: option.splits)
  from PS_trial_ok[OF z sm] obtain perc' k' where "z = (Inr (), perc', k')" by blast
  with assms(1) perc z show ?thesis
    by (auto simp: PS_threshold_def P_numberOfOpenSites_def)
qed

lemma PS_loop_ok:
  assumes "PS_loop draws n trials t ths k = Some y" and "0 < n" and "t \<le> trials"
  shows "\<exists>ths' k'. y = (Inr ths', trials, k') \<and> length ths' = length ths + nat (trials - t)"
  using assms
proof (induction draws n trials t ths k rule: PS_loop.induct)
  case (1 draws n trials t ths k)
  show ?case
  proof (cases "t < trials")
    case False
    with 1(2,4) show ?thesis by auto
  next
    case True
    with 1(2) obtain z where z: "PS_threshold draws n k = Some z"
      by (auto split: option.splits)
    from PS_threshold_ok[OF z 1(3)] obtain th k' where z': "z = (Inr th, k')" by blast
    with 1(2) True z have "PS_loop draws n trials (t + 1) (ths @ [th]) k' = Some y" by simp
    from 1(1)[OF True z _ _ this 1(3)] z' True
    obtain ths' k'' where "y = (Inr ths', trials, k'')"
      "length ths' = length (ths @ [th]) + nat (trials - (t + 1))" by auto
    with True show ?thesis by (auto simp: nat_diff_distrib)
  qed
qed

lemma PS_calculateStats_single: "PS_calculateStats [th] 1 = (th, NaN)"
  by (cases th) (simp_all add: PS_calculateStats_def of_int_double_def fsub_def Let_def)

lemma PS_new_1_1:
  "PS_new draws 1 1 =
     Some (Inr \<lparr>PS_thresholds = [Fin 1], PS_n = 1, PS_trials = 1,
                 PS_sampleMean = Fin 1, PS_sampleStddev = NaN\<rparr>, 1, 2)"
proof -
  let ?init = "\<lparr>P_n = 1, P_grid = [False], P_parent = [0, 1, 2], P_size = [1, 1, 1],
     P_openSitesCount = 0, P_virtualTop = 1, P_virtualBottom = 2\<rparr>"
  let ?fin = "\<lparr>P_n = 1, P_grid = [True], P_parent = [0, 0, 0], P_size = [3, 1, 1],
     P_openSitesCount = 1, P_virtualTop = 1, P_virtualBottom = 2\<rparr>"
  have p0: "P_percolates ?init = Some (Inr False, ?init)" by (simp add: P_eval)
  have o0: "P_isOpen ?init 0 0 = Some (Inr False, ?init)" by (simp add: P_eval)
  have o1: "P_open ?init 0 0 = Some (Inr (), ?fin)" by (simp add: P_eval)
  have p1: "P_percolates ?fin = Some (Inr True, ?fin)" by (simp add: P_eval)
  have pick: "PS_pick draws 1 ?init 0 = Some (Inr (0, 0), ?init, 2)"
    by (subst PS_pick.simps) (simp add: PS_dis_def o0 del: One_nat_def)
  have t1: "PS_trial draws 1 ?fin 2 = Some (Inr (), ?fin, 2)"
    by (subst PS_trial.simps) (simp add: p1 del: One_nat_def)
  have t0: "PS_trial draws 1 ?init 0 = Some (Inr (), ?fin, 2)"
    by (subst PS_trial.simps) (simp add: p0 pick o1 t1 del: One_nat_def)
  have th: "PS_threshold draws 1 0 = Some (Inr (Fin 1), 2)"
    by (simp add: PS_threshold_def P_new_1 t0 P_numberOfOpenSites_def of_int_double_def
             del: One_nat_def)
  have "PS_loop draws 1 1 0 [] 0 = Some (Inr [Fin 1], 1, 2)"
    by (simp add: th)
  then show ?thesis
    by (simp add: PS_new_def PS_calculateStats_single)
qed

text \<open>
  \<^bold>\<open>C8\<close> (construction errors). For all integers \<open>n\<close> and \<open>trials\<close> and every random source:
  if \<open>n \<le> 0\<close> or \<open>trials \<le> 0\<close>, the constructor of \<^verbatim>\<open>PercolationStats\<close> throws
  \<^verbatim>\<open>std::invalid_argument\<close> with its own message, having completed no trial and drawn no random
  value; if both are positive it throws nothing (neither from its checks nor out of a trial).
  The constructor of \<^verbatim>\<open>Percolation\<close> throws \<^verbatim>\<open>std::invalid_argument\<close> if and only if \<open>n \<le> 0\<close>.
\<close>

theorem construction_errors:
  "(if n \<le> 0
    then PS_new draws n trials =
           Some (Inl (invalid_argument ''Grid size n must be positive''), 0, 0)
    else if trials \<le> 0
    then PS_new draws n trials =
           Some (Inl (invalid_argument ''Number of trials must be positive''), 0, 0)
    else \<forall>e t k. PS_new draws n trials \<noteq> Some (Inl e, t, k)) \<and>
   (if n \<le> 0
    then P_new n = Some (Inl (invalid_argument ''Grid size must be positive''))
    else \<forall>e. P_new n \<noteq> Some (Inl e))"
proof -
  have "PS_new draws n trials \<noteq> Some (Inl e, t, k)" if n: "0 < n" and t: "0 < trials" for e t k
  proof
    assume a: "PS_new draws n trials = Some (Inl e, t, k)"
    with n t obtain y where y: "PS_loop draws n trials 0 [] 0 = Some y"
      by (auto simp: PS_new_def split: option.splits)
    from PS_loop_ok[OF y n] t obtain ths k' where "y = (Inr ths, trials, k')" by auto
    with a y n t show False by (simp add: PS_new_def split: prod.splits)
  qed
  then show ?thesis by (simp add: PS_new_def P_new_def Let_def)
qed

theorem construction_errors_witness:
  "PS_new (\<lambda>k. 0) (- 1) 10 =
     Some (Inl (invalid_argument ''Grid size n must be positive''), 0, 0) \<and>
   PS_new (\<lambda>k. 0) 10 0 =
     Some (Inl (invalid_argument ''Number of trials must be positive''), 0, 0) \<and>
   (\<forall>e t k. PS_new (\<lambda>k. 0) 1 1 \<noteq> Some (Inl e, t, k)) \<and>
   PS_new (\<lambda>k. 0) 1 1 =
     Some (Inr \<lparr>PS_thresholds = [Fin 1], PS_n = 1, PS_trials = 1,
                 PS_sampleMean = Fin 1, PS_sampleStddev = NaN\<rparr>, 1, 2) \<and>
   P_new (- 1) = Some (Inl (invalid_argument ''Grid size must be positive'')) \<and>
   (\<forall>e. P_new 1 \<noteq> Some (Inl e))"
  using construction_errors[of "- 1" "\<lambda>k. 0" 10] construction_errors[of 10 "\<lambda>k. 0" 0]
        construction_errors[of 1 "\<lambda>k. 0" 1] PS_new_1_1[of "\<lambda>k. 0"]
  by simp

text \<open>
  \<^bold>\<open>C9\<close> (one trial). \<^verbatim>\<open>PercolationStats(1, 1)\<close> returns, whatever the random source gives: its
  only trial opens the only site, the threshold and the mean are 1. \<^verbatim>\<open>calculateStats\<close> then
  divides the sum of squared deviations, 0, by \<^verbatim>\<open>trials - 1\<close>, 0: the quotient is NaN and so
  is its square root, the stored standard deviation. No operation traps, but the standard
  deviation the object reports is not a number, and neither are the two confidence bounds.
\<close>

theorem single_trial_stddev_nan:
  "\<exists>st. PS_new draws 1 1 = Some (Inr st, 1, 2) \<and>
        PS_thresholds st = [Fin 1] \<and> PS_mean st = Fin 1 \<and> PS_stddev st = NaN \<and>
        PS_confidenceLow st = NaN \<and> PS_confidenceHigh st = NaN"
  by (simp add: PS_new_1_1 PS_mean_def PS_stddev_def PS_confidenceLow_def PS_confidenceHigh_def
                of_int_double_def fsub_def)

text \<open>The same for every grid size and every run that returns: with \<open>trials = 1\<close> the stored
  standard deviation is NaN.\<close>

lemma single_trial_stddev_nan_general:
  assumes "PS_new draws n 1 = Some (Inr st, t, k)"
  shows "PS_stddev st = NaN"
proof -
  from assms have n: "0 < n" by (auto simp: PS_new_def split: if_splits)
  with assms obtain y where y: "PS_loop draws n 1 0 [] 0 = Some y"
    by (auto simp: PS_new_def split: option.splits)
  from PS_loop_ok[OF y n] obtain ths k' where
    "y = (Inr ths, 1, k')" "length ths = 1" by auto
  then obtain th where "y = (Inr [th], 1, k')" by (cases ths) auto
  with assms y n show ?thesis
    by (auto simp: PS_new_def PS_calculateStats_single PS_stddev_def)
qed

end
